theory Spec2Isabelle
  imports Main
begin

section \<open>The monitor (plugins/sync/monitor.c)\<close>

text \<open>
  A monitor is a sticky, manually resettable latch: a flag \<open>signaled\<close> guarded by the
  monitor's own mutex, and a condition variable. The two C \<open>int\<close> flags only ever hold
  0 or 1 and are modelled as booleans. Every function of the monitor holds the monitor's
  mutex for its whole body, so each one is a single atomic step on the record.
  The pthread calls themselves are taken to succeed.
\<close>

text \<open>
  Modelled from the spec: the structure \<open>monitor_t\<close>, declared in
  \<open>plugins/sync/monitor.h\<close>, which is missing from the sources. The spec gives a
  monitor a boolean \<open>signaled\<close> flag guarded by a mutex and a condition, created
  uninitialised; the two fields are those that \<open>monitor.c\<close> reads and writes.
\<close>

record monitor =
  signaled :: bool
  m_initialized :: bool

text \<open>\<open>monitor_init\<close>: refuses a monitor that is already initialised.\<close>

definition monitor_init :: "monitor \<Rightarrow> int \<times> monitor" where
  "monitor_init m =
     (if m_initialized m then (-1, m)
      else (0, m\<lparr>signaled := False, m_initialized := True\<rparr>))"

definition monitor_destroy :: "monitor \<Rightarrow> monitor" where
  "monitor_destroy m =
     (if \<not> m_initialized m then m
      else m\<lparr>signaled := False, m_initialized := False\<rparr>)"

text \<open>\<open>monitor_signal\<close>: set the flag (and wake every waiter).\<close>

definition monitor_signal :: "monitor \<Rightarrow> monitor" where
  "monitor_signal m = (if \<not> m_initialized m then m else m\<lparr>signaled := True\<rparr>)"

text \<open>\<open>monitor_reset\<close>: clear the flag, waking nobody.\<close>

definition monitor_reset :: "monitor \<Rightarrow> monitor" where
  "monitor_reset m = (if \<not> m_initialized m then m else m\<lparr>signaled := False\<rparr>)"

text \<open>
  \<open>monitor_wait\<close>: returns \<open>-1\<close> on an uninitialised monitor, returns \<open>0\<close> once the
  flag is seen set (the flag is left set), and sleeps otherwise. Sleeping is the
  value \<open>None\<close>: the calling thread cannot take this step now.
\<close>

definition monitor_wait :: "monitor \<Rightarrow> int option" where
  "monitor_wait m =
     (if \<not> m_initialized m then Some (-1)
      else if signaled m then Some 0
      else None)"

section \<open>The bounded queue (plugins/sync/consumer_producer.c)\<close>

text \<open>
  The queue structure. \<open>items\<close> is the array of \<open>capacity\<close> slots, a slot holding
  \<open>None\<close> for the null pointer; the empty list stands for \<open>items == NULL\<close>.
  The counters are C \<open>int\<close>s; they stay between 0 and \<open>capacity\<close>, which
  \<open>consumer_producer_init\<close> bounds by \<open>INT_MAX / sizeof(char*)\<close>, so no arithmetic of
  the queue wraps. On the non-negative operands that occur, C's \<open>%\<close> is \<open>mod\<close>.
  The item type is a parameter: the queue stores pointers and never looks at them.
\<close>

text \<open>
  Modelled from the spec: the structure \<open>consumer_producer_t\<close>, declared in
  \<open>plugins/sync/consumer_producer.h\<close>, which is missing from the sources. The spec
  gives a queue its capacity, its items, the \<open>finished\<close> flag, three monitors and a
  state mutex protecting items, count and indices; the fields are those that
  \<open>consumer_producer.c\<close> reads and writes, under the names it uses.
\<close>

record 'a consumer_producer =
  items :: "'a option list"
  capacity :: int
  count :: int
  head :: int
  tail :: int
  finished_flag :: bool
  initialized :: bool
  not_full_monitor :: monitor
  not_empty_monitor :: monitor
  finished_monitor :: monitor

text \<open>
  The two constants of the platform that \<open>consumer_producer_init\<close> uses: \<open>INT_MAX\<close>
  of \<open>limits.h\<close> for a 32-bit \<open>int\<close>, and \<open>sizeof(char*)\<close> for 64-bit pointers.
\<close>

definition INT_MAX :: int where
  "INT_MAX = 2147483647"

definition sizeof_ptr :: int where
  "sizeof_ptr = 8"

definition queue_is_full :: "'a consumer_producer \<Rightarrow> bool" where
  "queue_is_full queue = (count queue = capacity queue)"

definition queue_is_empty :: "'a consumer_producer \<Rightarrow> bool" where
  "queue_is_empty queue = (count queue = 0)"

text \<open>
  \<open>consumer_producer_init\<close>, with its error strings. The result is the returned
  string (\<open>None\<close> for \<open>NULL\<close>, success) and the structure as the call leaves it.
  A monitor whose memory already says "initialised" makes \<open>monitor_init\<close> fail, and
  the function then undoes what it did so far.
\<close>

definition consumer_producer_init ::
  "'a consumer_producer \<Rightarrow> int \<Rightarrow> string option \<times> 'a consumer_producer" where
  "consumer_producer_init queue cap =
     (if cap \<le> 0 then (Some ''Invalid queue capacity'', queue)
      else if initialized queue then (Some ''Queue already initialized'', queue)
      else if cap > INT_MAX div sizeof_ptr then (Some ''Queue capacity too large'', queue)
      else
        let q1 = queue\<lparr>items := replicate (nat cap) None, count := 0, head := 0, tail := 0,
                        capacity := cap, initialized := False, finished_flag := False\<rparr>;
            (r1, nf) = monitor_init (not_full_monitor q1)
        in if r1 \<noteq> 0 then (Some ''Failed to initialize monitors'', q1\<lparr>items := []\<rparr>)
        else
          let q2 = q1\<lparr>not_full_monitor := nf\<rparr>;
              (r2, ne) = monitor_init (not_empty_monitor q2)
          in if r2 \<noteq> 0
             then (Some ''Failed to initialize monitors'',
                   q2\<lparr>not_full_monitor := monitor_destroy nf, items := []\<rparr>)
          else
            let q3 = q2\<lparr>not_empty_monitor := ne\<rparr>;
                (r3, fm) = monitor_init (finished_monitor q3)
            in if r3 \<noteq> 0
               then (Some ''Failed to initialize monitors'',
                     q3\<lparr>not_full_monitor := monitor_destroy nf,
                        not_empty_monitor := monitor_destroy ne, items := []\<rparr>)
            else (None, q3\<lparr>finished_monitor := fm, initialized := True\<rparr>))"

text \<open>
  The memory of a structure before \<open>consumer_producer_init\<close>, as the callers hand it
  over: filled with zero bytes.
\<close>

definition zeroed_monitor :: monitor where
  "zeroed_monitor = \<lparr>signaled = False, m_initialized = False\<rparr>"

definition zeroed_queue :: "'a consumer_producer" where
  "zeroed_queue =
     \<lparr>items = [], capacity = 0, count = 0, head = 0, tail = 0,
      finished_flag = False, initialized = False,
      not_full_monitor = zeroed_monitor, not_empty_monitor = zeroed_monitor,
      finished_monitor = zeroed_monitor\<rparr>"

text \<open>
  The two mutations of the ring buffer, each done while holding the queue's lock:
  the insertion at \<open>tail\<close> in \<open>consumer_producer_put\<close> and the removal at \<open>head\<close> in
  \<open>consumer_producer_get\<close>.
\<close>

definition enqueue :: "'a \<Rightarrow> 'a consumer_producer \<Rightarrow> 'a consumer_producer" where
  "enqueue item queue =
     queue\<lparr>items := (items queue)[nat (tail queue) := Some item],
           tail := (tail queue + 1) mod capacity queue,
           count := count queue + 1\<rparr>"

definition dequeue :: "'a consumer_producer \<Rightarrow> 'a option \<times> 'a consumer_producer" where
  "dequeue queue =
     (items queue ! nat (head queue),
      queue\<lparr>items := (items queue)[nat (head queue) := None],
            head := (head queue + 1) mod capacity queue,
            count := count queue - 1\<rparr>)"


text \<open>
  \<open>consumer_producer_destroy\<close>: frees the items still held (the pointers freed are the
  first component of the result), the array and the monitors, and zeroes the fields.
  It is the only operation that clears \<open>finished_flag\<close>.
\<close>

definition consumer_producer_destroy ::
  "'a consumer_producer \<Rightarrow> 'a option list \<times> 'a consumer_producer" where
  "consumer_producer_destroy queue =
     (if \<not> initialized queue then ([], queue)
      else
        (if items queue \<noteq> [] \<and> count queue > 0 \<and> capacity queue > 0
         then map (\<lambda>i. items queue ! nat ((head queue + int i) mod capacity queue))
                [0 ..< nat (count queue)]
         else [],
         queue\<lparr>items := [],
               not_full_monitor := monitor_destroy (not_full_monitor queue),
               not_empty_monitor := monitor_destroy (not_empty_monitor queue),
               finished_monitor := monitor_destroy (finished_monitor queue),
               capacity := 0, count := 0, head := 0, tail := 0,
               initialized := False, finished_flag := False\<rparr>))"

subsection \<open>The blocking operations as step machines\<close>

text \<open>
  The four operations run concurrently in several threads. Each is modelled as a small
  machine whose control points are the places where the C function holds no lock:
  before it takes \<open>queue->lock\<close>, inside \<open>monitor_wait\<close>, and before a
  \<open>monitor_signal\<close>. \<open>count\<close>, \<open>head\<close>, \<open>tail\<close> and \<open>items\<close> are only touched between
  \<open>pthread_mutex_lock(&queue->lock)\<close> and the matching unlock, so a whole locked
  region is one atomic step; the \<open>monitor_reset\<close> that ends a region before a wait
  belongs to it. A step is \<open>None\<close> when the thread cannot move: it sleeps in
  \<open>monitor_wait\<close>, or it has returned. Each step also reports what it did as events.
\<close>

datatype mon_id = Not_Full | Not_Empty | Finished_Monitor

datatype 'a event =
    Enq 'a
  | Deq "'a option"
  | Signal mon_id
  | Reset mon_id

definition ERR_ITEM_NULL :: string where
  "ERR_ITEM_NULL = ''Item pointer is NULL''"

definition ERR_NOT_INITIALIZED :: string where
  "ERR_NOT_INITIALIZED = ''Queue not initialized''"

definition ERR_AFTER_FINISHED :: string where
  "ERR_AFTER_FINISHED = ''Cannot add item after finished signal''"

definition ERR_MONITOR_WAIT :: string where
  "ERR_MONITOR_WAIT = ''Failed during monitor operation (wait)''"

text \<open>
  \<open>consumer_producer_put\<close>. \<open>Put_Start\<close>: the unlocked checks at entry.
  \<open>Put_Lock\<close>: the first locked region, with the re-check of \<open>finished_flag\<close> and then
  the loop test. \<open>Put_Wait\<close>: inside \<open>monitor_wait(&queue->not_full_monitor)\<close>.
  \<open>Put_Relock\<close>: re-acquiring the lock after the wait, then the loop test again, with
  no check of \<open>finished_flag\<close>. \<open>Put_Signal\<close>: the item is in, the lock released.
  \<open>Put_Return r\<close>: the call has returned \<open>r\<close> (\<open>None\<close> is \<open>NULL\<close>, success).
\<close>

datatype 'a put_pc =
    Put_Start "'a option"
  | Put_Lock 'a
  | Put_Wait 'a
  | Put_Relock 'a
  | Put_Signal
  | Put_Return "string option"

definition put_loop ::
  "'a \<Rightarrow> 'a consumer_producer \<Rightarrow> 'a consumer_producer \<times> 'a put_pc \<times> 'a event list" where
  "put_loop item queue =
     (if queue_is_full queue
      then (queue\<lparr>not_full_monitor := monitor_reset (not_full_monitor queue)\<rparr>,
            Put_Wait item, [Reset Not_Full])
      else (enqueue item queue, Put_Signal, [Enq item]))"

fun put_step ::
  "'a consumer_producer \<Rightarrow> 'a put_pc \<Rightarrow>
   ('a consumer_producer \<times> 'a put_pc \<times> 'a event list) option" where
  "put_step queue (Put_Start None) = Some (queue, Put_Return (Some ERR_ITEM_NULL), [])"
| "put_step queue (Put_Start (Some item)) =
     (if \<not> initialized queue then Some (queue, Put_Return (Some ERR_NOT_INITIALIZED), [])
      else if finished_flag queue then Some (queue, Put_Return (Some ERR_AFTER_FINISHED), [])
      else Some (queue, Put_Lock item, []))"
| "put_step queue (Put_Lock item) =
     (if finished_flag queue then Some (queue, Put_Return (Some ERR_AFTER_FINISHED), [])
      else Some (put_loop item queue))"
| "put_step queue (Put_Wait item) =
     (case monitor_wait (not_full_monitor queue) of
        None \<Rightarrow> None
      | Some r \<Rightarrow>
          if r \<noteq> 0 then Some (queue, Put_Return (Some ERR_MONITOR_WAIT), [])
          else Some (queue, Put_Relock item, []))"
| "put_step queue (Put_Relock item) = Some (put_loop item queue)"
| "put_step queue Put_Signal =
     Some (queue\<lparr>not_empty_monitor := monitor_signal (not_empty_monitor queue)\<rparr>,
           Put_Return None, [Signal Not_Empty])"
| "put_step queue (Put_Return r) = None"

text \<open>
  \<open>consumer_producer_get\<close>. \<open>Get_Signal item became_empty\<close> is the point after the
  unlock that follows the removal; \<open>Get_Signal_Finished\<close> the second signal, made only
  when the removal emptied a finished queue.
\<close>

datatype 'a get_pc =
    Get_Start
  | Get_Lock
  | Get_Wait
  | Get_Relock
  | Get_Signal "'a option" bool
  | Get_Signal_Finished "'a option"
  | Get_Return "'a option"

definition get_loop ::
  "'a consumer_producer \<Rightarrow> 'a consumer_producer \<times> 'a get_pc \<times> 'a event list" where
  "get_loop queue =
     (if queue_is_empty queue \<and> \<not> finished_flag queue
      then (queue\<lparr>not_empty_monitor := monitor_reset (not_empty_monitor queue)\<rparr>,
            Get_Wait, [Reset Not_Empty])
      else if queue_is_empty queue \<and> finished_flag queue
      then (queue, Get_Return None, [])
      else
        let (item, queue') = dequeue queue;
            became_empty = (count queue' = 0 \<and> finished_flag queue')
        in (queue', Get_Signal item became_empty, [Deq item]))"

fun get_step ::
  "'a consumer_producer \<Rightarrow> 'a get_pc \<Rightarrow>
   ('a consumer_producer \<times> 'a get_pc \<times> 'a event list) option" where
  "get_step queue Get_Start =
     (if \<not> initialized queue then Some (queue, Get_Return None, [])
      else Some (queue, Get_Lock, []))"
| "get_step queue Get_Lock = Some (get_loop queue)"
| "get_step queue Get_Wait =
     (case monitor_wait (not_empty_monitor queue) of
        None \<Rightarrow> None
      | Some r \<Rightarrow>
          if r \<noteq> 0 then Some (queue, Get_Return None, [])
          else Some (queue, Get_Relock, []))"
| "get_step queue Get_Relock = Some (get_loop queue)"
| "get_step queue (Get_Signal item became_empty) =
     Some (queue\<lparr>not_full_monitor := monitor_signal (not_full_monitor queue)\<rparr>,
           if became_empty then Get_Signal_Finished item else Get_Return item,
           [Signal Not_Full])"
| "get_step queue (Get_Signal_Finished item) =
     Some (queue\<lparr>finished_monitor := monitor_signal (finished_monitor queue)\<rparr>,
           Get_Return item, [Signal Finished_Monitor])"
| "get_step queue (Get_Return r) = None"

text \<open>\<open>consumer_producer_signal_finished\<close>.\<close>

datatype sf_pc =
    SF_Start
  | SF_Lock
  | SF_Signal_Finished
  | SF_Signal_Not_Empty
  | SF_Return

fun signal_finished_step ::
  "'a consumer_producer \<Rightarrow> sf_pc \<Rightarrow>
   ('a consumer_producer \<times> sf_pc \<times> 'a event list) option" where
  "signal_finished_step queue SF_Start =
     (if \<not> initialized queue then Some (queue, SF_Return, [])
      else Some (queue, SF_Lock, []))"
| "signal_finished_step queue SF_Lock =
     (if finished_flag queue then Some (queue, SF_Return, [])
      else Some (queue\<lparr>finished_flag := True\<rparr>, SF_Signal_Finished, []))"
| "signal_finished_step queue SF_Signal_Finished =
     Some (queue\<lparr>finished_monitor := monitor_signal (finished_monitor queue)\<rparr>,
           SF_Signal_Not_Empty, [Signal Finished_Monitor])"
| "signal_finished_step queue SF_Signal_Not_Empty =
     Some (queue\<lparr>not_empty_monitor := monitor_signal (not_empty_monitor queue)\<rparr>,
           SF_Return, [Signal Not_Empty])"
| "signal_finished_step queue SF_Return = None"

text \<open>
  \<open>consumer_producer_wait_finished\<close>, with its fast path and its two loops.
  \<open>WF_Wait1\<close>/\<open>WF_Relock1\<close> belong to the loop on \<open>finished_flag == 0\<close>,
  \<open>WF_Wait2\<close>/\<open>WF_Relock2\<close> to the loop on \<open>count > 0\<close>.
\<close>

datatype wf_pc =
    WF_Start
  | WF_Lock
  | WF_Wait1
  | WF_Relock1
  | WF_Wait2
  | WF_Relock2
  | WF_Return int

definition wf_phase2 ::
  "'a consumer_producer \<Rightarrow> 'a consumer_producer \<times> wf_pc \<times> 'a event list" where
  "wf_phase2 queue =
     (if count queue > 0
      then (queue\<lparr>finished_monitor := monitor_reset (finished_monitor queue)\<rparr>,
            WF_Wait2, [Reset Finished_Monitor])
      else (queue, WF_Return 0, []))"

definition wf_phase1 ::
  "'a consumer_producer \<Rightarrow> 'a consumer_producer \<times> wf_pc \<times> 'a event list" where
  "wf_phase1 queue =
     (if \<not> finished_flag queue
      then (queue\<lparr>finished_monitor := monitor_reset (finished_monitor queue)\<rparr>,
            WF_Wait1, [Reset Finished_Monitor])
      else wf_phase2 queue)"

fun wait_finished_step ::
  "'a consumer_producer \<Rightarrow> wf_pc \<Rightarrow>
   ('a consumer_producer \<times> wf_pc \<times> 'a event list) option" where
  "wait_finished_step queue WF_Start =
     (if \<not> initialized queue then Some (queue, WF_Return (-1), [])
      else Some (queue, WF_Lock, []))"
| "wait_finished_step queue WF_Lock =
     (if finished_flag queue \<and> count queue = 0 then Some (queue, WF_Return 0, [])
      else Some (wf_phase1 queue))"
| "wait_finished_step queue WF_Wait1 =
     (case monitor_wait (finished_monitor queue) of
        None \<Rightarrow> None
      | Some r \<Rightarrow>
          if r \<noteq> 0 then Some (queue, WF_Return (-1), [])
          else Some (queue, WF_Relock1, []))"
| "wait_finished_step queue WF_Relock1 = Some (wf_phase1 queue)"
| "wait_finished_step queue WF_Wait2 =
     (case monitor_wait (finished_monitor queue) of
        None \<Rightarrow> None
      | Some r \<Rightarrow>
          if r \<noteq> 0 then Some (queue, WF_Return (-1), [])
          else Some (queue, WF_Relock2, []))"
| "wait_finished_step queue WF_Relock2 = Some (wf_phase2 queue)"
| "wait_finished_step queue (WF_Return r) = None"

subsection \<open>Threads sharing one queue\<close>

text \<open>
  A system is one queue and a pool of threads, each inside one call. A schedule is the
  list of thread numbers in the order in which they take a step; a thread that cannot
  move when it is named leaves the system as it is. Every interleaving of the calls is
  the run of some schedule. The trace of a run pairs each event with the number of the
  thread that made it.
\<close>

datatype 'a thread =
    Put "'a put_pc"
  | Get "'a get_pc"
  | Signal_Finished sf_pc
  | Wait_Finished wf_pc

fun thread_step ::
  "'a consumer_producer \<Rightarrow> 'a thread \<Rightarrow>
   ('a consumer_producer \<times> 'a thread \<times> 'a event list) option" where
  "thread_step queue (Put pc) =
     map_option (\<lambda>(q, pc', ev). (q, Put pc', ev)) (put_step queue pc)"
| "thread_step queue (Get pc) =
     map_option (\<lambda>(q, pc', ev). (q, Get pc', ev)) (get_step queue pc)"
| "thread_step queue (Signal_Finished pc) =
     map_option (\<lambda>(q, pc', ev). (q, Signal_Finished pc', ev)) (signal_finished_step queue pc)"
| "thread_step queue (Wait_Finished pc) =
     map_option (\<lambda>(q, pc', ev). (q, Wait_Finished pc', ev)) (wait_finished_step queue pc)"

type_synonym 'a system = "'a consumer_producer \<times> 'a thread list"

definition sys_step :: "nat \<Rightarrow> 'a system \<Rightarrow> 'a system \<times> (nat \<times> 'a event) list" where
  "sys_step i s =
     (if i < length (snd s)
      then (case thread_step (fst s) (snd s ! i) of
              None \<Rightarrow> (s, [])
            | Some (q, t, ev) \<Rightarrow> ((q, (snd s)[i := t]), map (Pair i) ev))
      else (s, []))"

fun run :: "nat list \<Rightarrow> 'a system \<Rightarrow> 'a system \<times> (nat \<times> 'a event) list" where
  "run [] s = (s, [])"
| "run (i # sched) s =
     (let (s', ev) = sys_step i s;
          (s'', evs) = run sched s'
      in (s'', ev @ evs))"

text \<open>The events of a trace in order, and the events of thread \<open>i\<close> in it.\<close>

definition events :: "(nat \<times> 'e) list \<Rightarrow> 'e list" where
  "events tr = map snd tr"

definition events_of :: "nat \<Rightarrow> (nat \<times> 'e) list \<Rightarrow> 'e list" where
  "events_of i tr = map snd (filter (\<lambda>e. fst e = i) tr)"

text \<open>The items inserted and the items removed, in the order of the events.\<close>

fun enqueued :: "'a event list \<Rightarrow> 'a list" where
  "enqueued [] = []"
| "enqueued (Enq x # evs) = x # enqueued evs"
| "enqueued (_ # evs) = enqueued evs"

fun dequeued :: "'a event list \<Rightarrow> 'a option list" where
  "dequeued [] = []"
| "dequeued (Deq x # evs) = x # dequeued evs"
| "dequeued (_ # evs) = dequeued evs"

text \<open>
  The state of a usable queue: initialised with a positive capacity, the array of
  that length, the indices inside it, \<open>tail\<close> at \<open>count\<close> places after \<open>head\<close>, the
  three monitors initialised.
\<close>

definition queue_inv :: "'a consumer_producer \<Rightarrow> bool" where
  "queue_inv queue \<longleftrightarrow>
     initialized queue \<and>
     0 < capacity queue \<and>
     length (items queue) = nat (capacity queue) \<and>
     0 \<le> head queue \<and> head queue < capacity queue \<and>
     0 \<le> count queue \<and> count queue \<le> capacity queue \<and>
     tail queue = (head queue + count queue) mod capacity queue \<and>
     m_initialized (not_full_monitor queue) \<and>
     m_initialized (not_empty_monitor queue) \<and>
     m_initialized (finished_monitor queue)"

text \<open>The items held, oldest first: the \<open>count\<close> slots from \<open>head\<close> on, around the ring.\<close>

definition contents :: "'a consumer_producer \<Rightarrow> 'a option list" where
  "contents queue =
     map (\<lambda>i. items queue ! nat ((head queue + int i) mod capacity queue))
       [0 ..< nat (count queue)]"

subsection \<open>Runs of one call, and what holds along every run\<close>

text \<open>
  \<open>exec\<close> lets one machine take up to \<open>n\<close> steps with nobody else running, and stops
  early where the machine cannot move (it sleeps or it has returned).
\<close>

fun exec ::
  "('q \<Rightarrow> 'pc \<Rightarrow> ('q \<times> 'pc \<times> 'e list) option) \<Rightarrow> nat \<Rightarrow> 'q \<Rightarrow> 'pc \<Rightarrow> 'q \<times> 'pc \<times> 'e list" where
  "exec step 0 q pc = (q, pc, [])"
| "exec step (Suc n) q pc =
     (case step q pc of
        None \<Rightarrow> (q, pc, [])
      | Some (q', pc', ev) \<Rightarrow>
          (let (q'', pc'', evs) = exec step n q' pc' in (q'', pc'', ev @ evs)))"

text \<open>What one step may do to the queue.\<close>

definition step_ok ::
  "'a consumer_producer \<Rightarrow> 'a consumer_producer \<Rightarrow> 'a event list \<Rightarrow> bool" where
  "step_ok q q' ev \<longleftrightarrow>
     queue_inv q' \<and> capacity q' = capacity q \<and>
     (finished_flag q \<longrightarrow> finished_flag q') \<and>
     dequeued ev @ contents q' = contents q @ map Some (enqueued ev)"


text \<open>No slot among the items held is a null pointer.\<close>

definition items_nonnull :: "'a consumer_producer \<Rightarrow> bool" where
  "items_nonnull queue \<longleftrightarrow> None \<notin> set (contents queue)"

text \<open>A thread at the entry of its call.\<close>

fun starting :: "'a thread \<Rightarrow> bool" where
  "starting (Put (Put_Start item)) = True"
| "starting (Get Get_Start) = True"
| "starting (Signal_Finished SF_Start) = True"
| "starting (Wait_Finished WF_Start) = True"
| "starting _ = False"

text \<open>
  What a thread inside a call knows: a \<open>get\<close> that has removed an item holds a
  non-null pointer; a \<open>wait_finished\<close> in its second loop, and a \<open>signal_finished\<close>
  past its locked region, have seen or set \<open>finished_flag\<close>.
\<close>

fun thread_inv :: "'a consumer_producer \<Rightarrow> 'a thread \<Rightarrow> bool" where
  "thread_inv queue (Get (Get_Signal item became_empty)) = (item \<noteq> None)"
| "thread_inv queue (Get (Get_Signal_Finished item)) = (item \<noteq> None)"
| "thread_inv queue (Get (Get_Return item)) = True"
| "thread_inv queue (Wait_Finished WF_Wait2) = finished_flag queue"
| "thread_inv queue (Wait_Finished WF_Relock2) = finished_flag queue"
| "thread_inv queue (Signal_Finished SF_Signal_Finished) = finished_flag queue"
| "thread_inv queue (Signal_Finished SF_Signal_Not_Empty) = finished_flag queue"
| "thread_inv queue _ = True"

definition sys_inv :: "'a system \<Rightarrow> bool" where
  "sys_inv s \<longleftrightarrow>
     queue_inv (fst s) \<and> items_nonnull (fst s) \<and> list_all (thread_inv (fst s)) (snd s)"

text \<open>
  A call against the events it has made. A \<open>put\<close> of \<open>item\<close> has inserted nothing
  before it leaves its locked region with the item in, and from then on, and when it
  has returned \<open>NULL\<close>, it has inserted exactly its item; when it has returned an error
  it has inserted nothing. A \<open>get\<close> has removed nothing before it leaves its locked
  region with an item, and it returns the one item it removed, or \<open>NULL\<close> having
  removed nothing. The other two operations neither insert nor remove.
\<close>

fun put_inv :: "'a option \<Rightarrow> 'a put_pc \<Rightarrow> 'a event list \<Rightarrow> bool" where
  "put_inv item (Put_Start y) ev = (y = item \<and> enqueued ev = [] \<and> dequeued ev = [])"
| "put_inv item (Put_Lock x) ev = (item = Some x \<and> enqueued ev = [] \<and> dequeued ev = [])"
| "put_inv item (Put_Wait x) ev = (item = Some x \<and> enqueued ev = [] \<and> dequeued ev = [])"
| "put_inv item (Put_Relock x) ev = (item = Some x \<and> enqueued ev = [] \<and> dequeued ev = [])"
| "put_inv item Put_Signal ev = (map Some (enqueued ev) = [item] \<and> dequeued ev = [])"
| "put_inv item (Put_Return None) ev = (map Some (enqueued ev) = [item] \<and> dequeued ev = [])"
| "put_inv item (Put_Return (Some e)) ev = (enqueued ev = [] \<and> dequeued ev = [])"

fun get_inv :: "'a get_pc \<Rightarrow> 'a event list \<Rightarrow> bool" where
  "get_inv (Get_Signal y became_empty) ev =
     (y \<noteq> None \<and> dequeued ev = [y] \<and> enqueued ev = [])"
| "get_inv (Get_Signal_Finished y) ev = (y \<noteq> None \<and> dequeued ev = [y] \<and> enqueued ev = [])"
| "get_inv (Get_Return None) ev = (dequeued ev = [] \<and> enqueued ev = [])"
| "get_inv (Get_Return (Some x)) ev = (dequeued ev = [Some x] \<and> enqueued ev = [])"
| "get_inv pc ev = (dequeued ev = [] \<and> enqueued ev = [])"

fun call_inv :: "'a thread \<Rightarrow> 'a thread \<Rightarrow> 'a event list \<Rightarrow> bool" where
  "call_inv (Put (Put_Start item)) (Put pc) ev = put_inv item pc ev"
| "call_inv (Get Get_Start) (Get pc) ev = get_inv pc ev"
| "call_inv (Signal_Finished SF_Start) (Signal_Finished pc) ev =
     (enqueued ev = [] \<and> dequeued ev = [])"
| "call_inv (Wait_Finished WF_Start) (Wait_Finished pc) ev =
     (enqueued ev = [] \<and> dequeued ev = [])"
| "call_inv t0 t ev = False"

section \<open>The stage runtime (plugins/plugin_common.c)\<close>

subsection \<open>Heap buffers\<close>

text \<open>
  The items of a stage's queue are pointers to heap strings, and the worker decides what
  to free by comparing pointers, so buffers have addresses. The heap holds the live
  buffers with their contents, the next address to hand out, and the log of every call of
  \<open>free\<close>, in order. An address is never handed out twice, so the number of times an
  address occurs in the log is the number of times that allocation was freed.
  Running out of memory is not modelled.
\<close>

type_synonym addr = nat

record heap =
  bufs :: "(addr \<times> string) list"
  next_addr :: addr
  freed :: "addr list"

definition deref :: "heap \<Rightarrow> addr \<Rightarrow> string option" where
  "deref h a = map_of (bufs h) a"

text \<open>\<open>malloc\<close> of a buffer that is then filled with \<open>s\<close>; \<open>strdup\<close> is this too.\<close>

definition alloc :: "string \<Rightarrow> heap \<Rightarrow> addr \<times> heap" where
  "alloc s h =
     (next_addr h, h\<lparr>bufs := bufs h @ [(next_addr h, s)], next_addr := Suc (next_addr h)\<rparr>)"

definition free :: "addr \<Rightarrow> heap \<Rightarrow> heap" where
  "free a h = h\<lparr>bufs := filter (\<lambda>b. fst b \<noteq> a) (bufs h), freed := freed h @ [a]\<rparr>"

subsection \<open>The plugin context\<close>

text \<open>
  What a transform may hand back (its contract): its argument, a freshly allocated
  buffer holding some string, or \<open>NULL\<close>. A transform is a function from the input
  string to one of these.
\<close>

datatype transform_result =
    Same_Pointer
  | New_Buffer string
  | Null_Result

text \<open>
  \<open>plugin_context_t\<close>. The thread handle is left out. \<open>queue\<close> is the pointer to the
  stage's queue (\<open>None\<close> for \<open>NULL\<close>); \<open>next_place_work\<close> is a function pointer, of a
  type \<open>'f\<close> of references to functions that the caller of the worker interprets.
  The field \<open>initialized\<close> is called \<open>plugin_initialized\<close> here, the queue having a
  field of the same name.
\<close>

record 'f plugin_context =
  name :: "string option"
  queue :: "addr consumer_producer option"
  next_place_work :: "'f option"
  process_function :: "(string \<Rightarrow> transform_result) option"
  plugin_initialized :: bool
  finished :: bool
  attached :: bool
  worker_joined :: bool

definition END_SENTINEL :: string where
  "END_SENTINEL = ''<END>''"

definition is_end :: "string option \<Rightarrow> bool" where
  "is_end s = (s \<noteq> None \<and> s = Some END_SENTINEL)"

text \<open>
  A stage: the module's global context, the process heap, and the state \<open>'d\<close> of
  whatever lies behind \<open>next_place_work\<close>. A call of that function pointer on a string
  is a function \<open>call f s\<close> from the heap and the state before to the returned string
  (\<open>None\<close> for \<open>NULL\<close>, success) and the heap and the state after. The pointee
  receives a \<open>const char*\<close> and only reads it, so it gets the contents of the buffer.
  The call need not return: \<open>plugin_place_work\<close> of the next stage waits inside
  \<open>consumer_producer_put\<close> while that stage's queue is full. Then \<open>call f s\<close> is
  \<open>None\<close>, and the caller, which is inside the call, does not move.
\<close>

record ('f, 'd) stage =
  g_plugin_context :: "'f plugin_context"
  heap :: heap
  downstream :: 'd

type_synonym ('f, 'd) callee =
  "'f \<Rightarrow> string \<Rightarrow> heap \<Rightarrow> 'd \<Rightarrow> (string option \<times> heap \<times> 'd) option"

text \<open>
  What a thread of a stage does, as events: a step of a queue operation, the worker
  reading the buffer it has been given, a call of the transform, a call of
  \<open>next_place_work\<close> on the sentinel or on a payload (with what it returned), a call of
  \<open>free\<close>, a line of \<open>log_error\<close>.
\<close>

datatype wevent =
    Queue_Event "addr event"
  | Got addr string
  | Transform string
  | Forward_End "string option"
  | Forward string "string option"
  | Free addr
  | Log_Error string

definition set_queue ::
  "addr consumer_producer \<Rightarrow> ('f, 'd) stage \<Rightarrow> ('f, 'd) stage" where
  "set_queue q st = st\<lparr>g_plugin_context := (g_plugin_context st)\<lparr>queue := Some q\<rparr>\<rparr>"

definition do_free :: "addr \<Rightarrow> ('f, 'd) stage \<Rightarrow> ('f, 'd) stage" where
  "do_free a st = st\<lparr>heap := free a (heap st)\<rparr>"

text \<open>The test \<open>ctx->attached && ctx->next_place_work\<close>, giving the pointer when it holds.\<close>

definition wired :: "'f plugin_context \<Rightarrow> 'f option" where
  "wired ctx = (if attached ctx then next_place_work ctx else None)"

subsection \<open>The worker, \<open>plugin_consumer_thread\<close>\<close>

text \<open>\<open>ctx->finished = 1\<close>.\<close>

definition set_finished :: "('f, 'd) stage \<Rightarrow> ('f, 'd) stage" where
  "set_finished st = st\<lparr>g_plugin_context := (g_plugin_context st)\<lparr>finished := True\<rparr>\<rparr>"

text \<open>
  The branch for the sentinel: forward it if wired, free it if that fails or if the
  stage is not wired, then set \<open>ctx->finished\<close>. The result is \<open>None\<close> while the
  call of \<open>next_place_work\<close> has not returned.
\<close>

definition handle_end ::
  "('f, 'd) callee \<Rightarrow> ('f, 'd) stage \<Rightarrow> addr \<Rightarrow> string \<Rightarrow>
   (('f, 'd) stage \<times> wevent list) option" where
  "handle_end call st inp s =
     (case wired (g_plugin_context st) of
        Some f \<Rightarrow>
          (case call f s (heap st) (downstream st) of
             None \<Rightarrow> None
           | Some (err, h, d) \<Rightarrow>
               (let st' = st\<lparr>heap := h, downstream := d\<rparr>
                in case err of
                     Some e \<Rightarrow>
                       Some (set_finished (do_free inp st'),
                             [Forward_End (Some e), Log_Error e, Free inp])
                   | None \<Rightarrow> Some (set_finished st', [Forward_End None])))
      | None \<Rightarrow> Some (set_finished (do_free inp st), [Free inp]))"

text \<open>
  Step 4 of the loop body: the transform has returned the non-null \<open>out\<close>, holding
  \<open>s\<close>. Forward it if wired, and free what the comments of the source say is still
  owned here. The result is \<open>None\<close> while the call of \<open>next_place_work\<close> has not
  returned.
\<close>

definition deliver ::
  "('f, 'd) callee \<Rightarrow> ('f, 'd) stage \<Rightarrow> addr \<Rightarrow> addr \<Rightarrow> string \<Rightarrow>
   (('f, 'd) stage \<times> wevent list) option" where
  "deliver call st inp out s =
     (case wired (g_plugin_context st) of
        Some f \<Rightarrow>
          (case call f s (heap st) (downstream st) of
             None \<Rightarrow> None
           | Some (err, h, d) \<Rightarrow>
               (let st' = st\<lparr>heap := h, downstream := d\<rparr>
                in case err of
                     None \<Rightarrow>
                       if out \<noteq> inp then Some (do_free inp st', [Forward s None, Free inp])
                       else Some (st', [Forward s None])
                   | Some e \<Rightarrow>
                       if out \<noteq> inp
                       then Some (do_free inp (do_free out st'),
                                  [Forward s (Some e), Log_Error e, Free out, Free inp])
                       else Some (do_free inp st',
                                  [Forward s (Some e), Log_Error e, Free inp])))
      | None \<Rightarrow>
          if out \<noteq> inp then Some (do_free inp (do_free out st), [Free out, Free inp])
          else Some (do_free inp st, [Free inp]))"

text \<open>
  Step 3: call the transform, the function that \<open>ctx->process_function\<close> points to,
  on a payload, and go on to step 4 with what it returns.
\<close>

definition handle_payload ::
  "('f, 'd) callee \<Rightarrow> ('f, 'd) stage \<Rightarrow> (string \<Rightarrow> transform_result) \<Rightarrow> addr \<Rightarrow> string \<Rightarrow>
   (('f, 'd) stage \<times> wevent list) option" where
  "handle_payload call st transform inp s =
     (case transform s of
        Null_Result \<Rightarrow>
          Some (do_free inp st, [Transform s, Log_Error ''transform failed'', Free inp])
      | Same_Pointer \<Rightarrow>
          map_option (\<lambda>(st', ev). (st', Transform s # ev)) (deliver call st inp inp s)
      | New_Buffer s' \<Rightarrow>
          (let (out, h) = alloc s' (heap st)
           in map_option (\<lambda>(st', ev). (st', Transform s # ev))
                (deliver call (st\<lparr>heap := h\<rparr>) inp out s')))"

text \<open>
  The control points of the worker: at its entry, inside \<open>consumer_producer_get\<close>,
  holding the pointer that \<open>get\<close> returned, inside
  \<open>consumer_producer_signal_finished\<close>, returned. \<open>W_Crash\<close> stands for what C leaves
  undefined: reading a buffer that is not live, calling through a null
  \<open>process_function\<close>, or using a queue that is gone.
  The loop body touches the worker's own queue only through \<open>get\<close> and
  \<open>signal_finished\<close>, so the body between them is one step, taken when the call of
  \<open>next_place_work\<close> in it, if there is one, returns.
\<close>

datatype worker_pc =
    W_Entry
  | W_Get "addr get_pc"
  | W_Item addr
  | W_Signal sf_pc
  | W_Exit
  | W_Crash

text \<open>\<open>if (in == NULL) continue;\<close> after \<open>get\<close> has returned.\<close>

fun after_get :: "addr get_pc \<Rightarrow> worker_pc" where
  "after_get (Get_Return None) = W_Get Get_Start"
| "after_get (Get_Return (Some inp)) = W_Item inp"
| "after_get pc = W_Get pc"

fun after_signal :: "sf_pc \<Rightarrow> worker_pc" where
  "after_signal SF_Return = W_Exit"
| "after_signal pc = W_Signal pc"

fun worker_step ::
  "('f, 'd) callee \<Rightarrow> ('f, 'd) stage \<Rightarrow> worker_pc \<Rightarrow>
   (('f, 'd) stage \<times> worker_pc \<times> wevent list) option" where
  "worker_step call st W_Entry =
     (if queue (g_plugin_context st) = None \<or> process_function (g_plugin_context st) = None
      then Some (st, W_Exit, [])
      else Some (st, W_Get Get_Start, []))"
| "worker_step call st (W_Get pc) =
     (case queue (g_plugin_context st) of
        None \<Rightarrow> if pc = Get_Start then Some (st, W_Get Get_Start, []) else Some (st, W_Crash, [])
      | Some q \<Rightarrow>
          (case get_step q pc of
             None \<Rightarrow> None
           | Some (q', pc', ev) \<Rightarrow> Some (set_queue q' st, after_get pc', map Queue_Event ev)))"
| "worker_step call st (W_Item inp) =
     (case deref (heap st) inp of
        None \<Rightarrow> Some (st, W_Crash, [])
      | Some s \<Rightarrow>
          if is_end (Some s)
          then map_option (\<lambda>(st', ev). (st', W_Signal SF_Start, Got inp s # ev))
                 (handle_end call st inp s)
          else (case process_function (g_plugin_context st) of
                  None \<Rightarrow> Some (st, W_Crash, [Got inp s])
                | Some transform \<Rightarrow>
                    map_option (\<lambda>(st', ev). (st', W_Get Get_Start, Got inp s # ev))
                      (handle_payload call st transform inp s)))"
| "worker_step call st (W_Signal pc) =
     (case queue (g_plugin_context st) of
        None \<Rightarrow> if pc = SF_Start then Some (st, W_Exit, []) else Some (st, W_Crash, [])
      | Some q \<Rightarrow>
          (case signal_finished_step q pc of
             None \<Rightarrow> None
           | Some (q', pc', ev) \<Rightarrow> Some (set_queue q' st, after_signal pc', map Queue_Event ev)))"
| "worker_step call st W_Exit = None"
| "worker_step call st W_Crash = None"

subsection \<open>The exported functions of a stage\<close>

text \<open>
  \<open>plugin_place_work\<close>: duplicate the string, put the copy, and free the copy if the
  put fails. \<open>PW_Put dup pc\<close> is the call inside \<open>consumer_producer_put\<close>.
\<close>

datatype pw_pc =
    PW_Start "string option"
  | PW_Put addr "addr put_pc"
  | PW_Return "string option"

definition ERR_QUEUE_NULL :: string where
  "ERR_QUEUE_NULL = ''Queue pointer is NULL''"

fun after_put ::
  "addr \<Rightarrow> addr put_pc \<Rightarrow> ('f, 'd) stage \<Rightarrow> ('f, 'd) stage \<times> pw_pc \<times> wevent list" where
  "after_put dup (Put_Return None) st = (st, PW_Return None, [])"
| "after_put dup (Put_Return (Some err)) st =
     (do_free dup st, PW_Return (Some err), [Free dup, Log_Error err])"
| "after_put dup pc st = (st, PW_Put dup pc, [])"

fun place_work_step ::
  "('f, 'd) stage \<Rightarrow> pw_pc \<Rightarrow> (('f, 'd) stage \<times> pw_pc \<times> wevent list) option" where
  "place_work_step st (PW_Start None) =
     Some (st, PW_Return (Some ''invalid input''),
           [Log_Error ''plugin_place_work: invalid input (NULL)''])"
| "place_work_step st (PW_Start (Some str)) =
     (if \<not> plugin_initialized (g_plugin_context st)
      then Some (st, PW_Return (Some ''plugin not initialized''),
                 [Log_Error ''plugin_place_work: plugin not initialized''])
      else (let (dup, h) = alloc str (heap st)
            in Some (st\<lparr>heap := h\<rparr>, PW_Put dup (Put_Start (Some dup)), [])))"
| "place_work_step st (PW_Put dup pc) =
     (case queue (g_plugin_context st) of
        None \<Rightarrow>
          (case pc of
             Put_Start x \<Rightarrow>
               Some (do_free dup st, PW_Return (Some ERR_QUEUE_NULL),
                     [Free dup, Log_Error ERR_QUEUE_NULL])
           | _ \<Rightarrow> None)
      | Some q \<Rightarrow>
          (case put_step q pc of
             None \<Rightarrow> None
           | Some (q', pc', ev) \<Rightarrow>
               (let (st', pw, ev') = after_put dup pc' (set_queue q' st)
                in Some (st', pw, map Queue_Event ev @ ev'))))"
| "place_work_step st (PW_Return r) = None"

text \<open>\<open>plugin_attach\<close>, with the line it logs when it refuses.\<close>

definition plugin_attach ::
  "'f option \<Rightarrow> 'f plugin_context \<Rightarrow> 'f plugin_context \<times> wevent list" where
  "plugin_attach nxt ctx =
     (if \<not> plugin_initialized ctx then (ctx, [Log_Error ''attach called before init''])
      else if finished ctx then (ctx, [Log_Error ''attach after finish''])
      else if attached ctx then (ctx, [Log_Error ''attach called twice''])
      else (ctx\<lparr>next_place_work := nxt, attached := True\<rparr>, []))"

text \<open>
  \<open>common_plugin_init\<close>. \<open>mem\<close> is the memory that \<open>malloc\<close> returns for the queue
  structure. Creating the worker thread is taken to succeed; the new thread starts at
  \<open>W_Entry\<close>.
\<close>

definition common_plugin_init ::
  "(string \<Rightarrow> transform_result) option \<Rightarrow> string option \<Rightarrow> int \<Rightarrow>
   addr consumer_producer \<Rightarrow> 'f plugin_context \<Rightarrow> string option \<times> 'f plugin_context" where
  "common_plugin_init process_fn nm queue_size mem ctx =
     (if process_fn = None then (Some ''invalid process function'', ctx)
      else if nm = None \<or> nm = Some [] then (Some ''invalid plugin name'', ctx)
      else if queue_size \<le> 0 then (Some ''invalid queue size'', ctx)
      else if plugin_initialized ctx then (Some ''plugin already initialized'', ctx)
      else
        let ctx1 = ctx\<lparr>attached := False, plugin_initialized := False, finished := False,
                        worker_joined := False, next_place_work := None, queue := None,
                        name := nm, process_function := process_fn\<rparr>;
            (qerr, q) = consumer_producer_init mem queue_size
        in if qerr \<noteq> None then (qerr, ctx1)
           else (None, ctx1\<lparr>queue := Some q, plugin_initialized := True\<rparr>))"

definition zeroed_context :: "'f plugin_context" where
  "zeroed_context =
     \<lparr>name = None, queue = None, next_place_work = None, process_function = None,
      plugin_initialized = False, finished = False, attached = False,
      worker_joined = False\<rparr>"

definition empty_heap :: heap where
  "empty_heap = \<lparr>bufs = [], next_addr = 0, freed = []\<rparr>"

subsection \<open>The threads of one stage\<close>

text \<open>
  The worker of a stage runs next to the threads that call the stage's functions:
  callers of \<open>plugin_place_work\<close> (the stage before, or the controller), of
  \<open>plugin_attach\<close>, and of the queue's own operations (\<open>plugin_wait_finished\<close> is
  \<open>consumer_producer_wait_finished\<close> on the stage's queue). A schedule names the
  thread that moves; the trace pairs each event with the thread that made it.
\<close>

datatype 'f attach_pc =
    Attach_Start "'f option"
  | Attach_Return

datatype 'f sthread =
    Worker worker_pc
  | Place_Work pw_pc
  | Attach "'f attach_pc"
  | Queue_Op "addr thread"

fun sthread_step ::
  "('f, 'd) callee \<Rightarrow> ('f, 'd) stage \<Rightarrow> 'f sthread \<Rightarrow>
   (('f, 'd) stage \<times> 'f sthread \<times> wevent list) option" where
  "sthread_step call st (Worker pc) =
     map_option (\<lambda>(st', pc', ev). (st', Worker pc', ev)) (worker_step call st pc)"
| "sthread_step call st (Place_Work pc) =
     map_option (\<lambda>(st', pc', ev). (st', Place_Work pc', ev)) (place_work_step st pc)"
| "sthread_step call st (Attach (Attach_Start nxt)) =
     (let (ctx, ev) = plugin_attach nxt (g_plugin_context st)
      in Some (st\<lparr>g_plugin_context := ctx\<rparr>, Attach Attach_Return, ev))"
| "sthread_step call st (Attach Attach_Return) = None"
| "sthread_step call st (Queue_Op t) =
     (case queue (g_plugin_context st) of
        None \<Rightarrow> None
      | Some q \<Rightarrow>
          map_option (\<lambda>(q', t', ev). (set_queue q' st, Queue_Op t', map Queue_Event ev))
            (thread_step q t))"

type_synonym ('f, 'd) stage_system = "('f, 'd) stage \<times> 'f sthread list"

definition stage_step ::
  "('f, 'd) callee \<Rightarrow> nat \<Rightarrow> ('f, 'd) stage_system \<Rightarrow>
   ('f, 'd) stage_system \<times> (nat \<times> wevent) list" where
  "stage_step call i s =
     (if i < length (snd s)
      then (case sthread_step call (fst s) (snd s ! i) of
              None \<Rightarrow> (s, [])
            | Some (st, t, ev) \<Rightarrow> ((st, (snd s)[i := t]), map (Pair i) ev))
      else (s, []))"

fun stage_run ::
  "('f, 'd) callee \<Rightarrow> nat list \<Rightarrow> ('f, 'd) stage_system \<Rightarrow>
   ('f, 'd) stage_system \<times> (nat \<times> wevent) list" where
  "stage_run call [] s = (s, [])"
| "stage_run call (i # sched) s =
     (let (s', ev) = stage_step call i s;
          (s'', evs) = stage_run call sched s'
      in (s'', ev @ evs))"

fun is_forward_end :: "wevent \<Rightarrow> bool" where
  "is_forward_end (Forward_End r) = True"
| "is_forward_end _ = False"

fun is_got_end :: "wevent \<Rightarrow> bool" where
  "is_got_end (Got a s) = (s = END_SENTINEL)"
| "is_got_end _ = False"

fun is_queue_event :: "wevent \<Rightarrow> bool" where
  "is_queue_event (Queue_Event e) = True"
| "is_queue_event _ = False"

text \<open>
  \<open>plugin_place_work\<close> of the next stage as the function behind
  \<open>next_place_work\<close>, with no other thread moving during the call: the machine runs
  alone, and it returns within four steps or comes to wait for room in the queue. In
  the second case the call has not returned. The state behind the pointer is the next
  module's context; the heap is the one heap of the process.
\<close>

definition place_work_call :: "('f, 'g plugin_context) callee" where
  "place_work_call f s h d =
     (let (st, pc, ev) =
        exec place_work_step 5
          \<lparr>g_plugin_context = d, heap = h, downstream = ()\<rparr> (PW_Start (Some s))
      in case pc of
           PW_Return r \<Rightarrow> Some (r, heap st, g_plugin_context st)
         | _ \<Rightarrow> None)"

text \<open>
  To say what a stage has passed to \<open>next_place_work\<close>, the calls are noted next to
  the state behind the pointer: \<open>recording call\<close> does what \<open>call\<close> does, and adds
  the string it was given and the string it returned to the list of the calls that have
  returned.
\<close>

definition recording ::
  "('f, 'd) callee \<Rightarrow> ('f, 'd \<times> (string \<times> string option) list) callee" where
  "recording call f s h d =
     (case call f s h (fst d) of
        None \<Rightarrow> None
      | Some (err, h', d') \<Rightarrow> Some (err, h', (d', snd d @ [(s, err)])))"

text \<open>How many of the calls noted were given the sentinel.\<close>

definition sentinel_count :: "(string \<times> string option) list \<Rightarrow> nat" where
  "sentinel_count calls = length (filter (\<lambda>c. fst c = END_SENTINEL) calls)"

fun is_worker :: "'f sthread \<Rightarrow> bool" where
  "is_worker (Worker pc) = True"
| "is_worker t = False"

subsection \<open>What the worker has done so far\<close>

text \<open>
  The sentinel's buffer and the worker's events after it was read, if it was.
\<close>

fun end_handling :: "wevent list \<Rightarrow> (addr \<times> wevent list) option" where
  "end_handling [] = None"
| "end_handling (Got a s # ev) = (if s = END_SENTINEL then Some (a, ev) else end_handling ev)"
| "end_handling (e # ev) = end_handling ev"

text \<open>
  How the sentinel in buffer \<open>a\<close> is disposed of, as the events \<open>h\<close> of the worker
  other than the steps of queue operations: a stage that is not wired frees it; a
  wired stage forwards it once, and frees it if the forwarding failed.
\<close>

fun disposal :: "bool \<Rightarrow> addr \<Rightarrow> wevent list \<Rightarrow> bool" where
  "disposal False a h = (h = [Free a])"
| "disposal True a h =
     (case h of
        [Forward_End None] \<Rightarrow> True
      | [Forward_End (Some e), Log_Error e', Free a'] \<Rightarrow> e' = e \<and> a' = a
      | _ \<Rightarrow> False)"

definition before_end :: "wevent list \<Rightarrow> bool" where
  "before_end ev \<longleftrightarrow>
     end_handling ev = None \<and> filter is_forward_end ev = [] \<and>
     Transform END_SENTINEL \<notin> set ev"

definition handled_end :: "'f plugin_context \<Rightarrow> wevent list \<Rightarrow> bool" where
  "handled_end ctx ev \<longleftrightarrow>
     finished ctx \<and>
     (case end_handling ev of
        None \<Rightarrow> False
      | Some (a, rest) \<Rightarrow>
          disposal (wired ctx \<noteq> None) a (filter (\<lambda>e. \<not> is_queue_event e) rest)) \<and>
     length (filter is_got_end ev) = 1 \<and>
     length (filter is_forward_end ev) = (if wired ctx = None then 0 else 1) \<and>
     Transform END_SENTINEL \<notin> set ev"

text \<open>The stage's queue, if it is there and initialised, has \<open>finished_flag\<close> set.\<close>

definition queue_finished :: "'f plugin_context \<Rightarrow> bool" where
  "queue_finished ctx \<longleftrightarrow>
     (case queue ctx of None \<Rightarrow> True | Some q \<Rightarrow> initialized q \<longrightarrow> finished_flag q)"

text \<open>
  What a step of any thread of the stage leaves alone in the context: \<open>finished\<close>
  stays set, the wiring of a finished stage and of an attached stage stays, the
  transform stays, and the queue stays where it is, initialised or not as before, with
  \<open>finished_flag\<close> staying set.
\<close>

definition ctx_step_ok :: "'f plugin_context \<Rightarrow> 'f plugin_context \<Rightarrow> bool" where
  "ctx_step_ok ctx ctx' \<longleftrightarrow>
     (finished ctx \<longrightarrow> finished ctx' \<and> wired ctx' = wired ctx) \<and>
     (attached ctx \<longrightarrow> attached ctx' \<and> wired ctx' = wired ctx) \<and>
     process_function ctx' = process_function ctx \<and>
     (case queue ctx of
        None \<Rightarrow> queue ctx' = None
      | Some q \<Rightarrow>
          (case queue ctx' of
             None \<Rightarrow> False
           | Some q' \<Rightarrow>
               initialized q' = initialized q \<and> (finished_flag q \<longrightarrow> finished_flag q')))"

text \<open>
  The worker's control point against what it has done. A worker that is at
  \<open>W_Exit\<close> with no event behind it has returned at its entry checks, for want of
  a queue or of a transform.
\<close>

fun worker_inv :: "'f plugin_context \<Rightarrow> worker_pc \<Rightarrow> wevent list \<Rightarrow> bool" where
  "worker_inv ctx W_Entry ev = (ev = [])"
| "worker_inv ctx (W_Get pc) ev = before_end ev"
| "worker_inv ctx (W_Item a) ev = before_end ev"
| "worker_inv ctx W_Crash ev = (before_end ev \<or> handled_end ctx ev)"
| "worker_inv ctx (W_Signal pc) ev =
     (pc \<noteq> SF_Return \<and> handled_end ctx ev \<and>
      (pc \<noteq> SF_Start \<and> pc \<noteq> SF_Lock \<longrightarrow> queue_finished ctx))"
| "worker_inv ctx W_Exit ev =
     (ev = [] \<and> (queue ctx = None \<or> process_function ctx = None) \<or>
      handled_end ctx ev \<and> queue_finished ctx)"

fun sthread_inv :: "'f plugin_context \<Rightarrow> 'f sthread \<Rightarrow> wevent list \<Rightarrow> bool" where
  "sthread_inv ctx (Worker pc) ev = worker_inv ctx pc ev"
| "sthread_inv ctx t ev = True"

text \<open>
  A thread that cannot add an item to a finished queue any more: it is not a \<open>put\<close>
  that has passed its checks of \<open>finished_flag\<close> and waits for room. For the
  worker: it is inside \<open>get\<close> and has not removed an item.
\<close>

fun put_past_checks :: "'a put_pc \<Rightarrow> bool" where
  "put_past_checks (Put_Wait x) = True"
| "put_past_checks (Put_Relock x) = True"
| "put_past_checks pc = False"

fun get_waiting :: "'a get_pc \<Rightarrow> bool" where
  "get_waiting Get_Start = True"
| "get_waiting Get_Lock = True"
| "get_waiting Get_Wait = True"
| "get_waiting Get_Relock = True"
| "get_waiting pc = False"

fun quiet_thread :: "'f sthread \<Rightarrow> bool" where
  "quiet_thread (Worker (W_Get pc)) = get_waiting pc"
| "quiet_thread (Worker pc) = False"
| "quiet_thread (Place_Work (PW_Put dup pc)) = (\<not> put_past_checks pc)"
| "quiet_thread (Place_Work pc) = True"
| "quiet_thread (Attach pc) = True"
| "quiet_thread (Queue_Op (Put pc)) = (\<not> put_past_checks pc)"
| "quiet_thread (Queue_Op t) = True"

definition drained_queue :: "'a consumer_producer \<Rightarrow> bool" where
  "drained_queue q \<longleftrightarrow> queue_inv q \<and> finished_flag q \<and> count q = 0"

text \<open>
  A stage whose queue is finished and empty, with no \<open>put\<close> left that could still add
  an item, and whose workers are inside \<open>get\<close>.
\<close>

definition drained :: "('f, 'd) stage_system \<Rightarrow> bool" where
  "drained s \<longleftrightarrow>
     (case queue (g_plugin_context (fst s)) of
        None \<Rightarrow> False
      | Some q \<Rightarrow> drained_queue q) \<and>
     list_all quiet_thread (snd s)"

fun is_attach :: "'f sthread \<Rightarrow> bool" where
  "is_attach (Attach pc) = True"
| "is_attach t = False"

subsection \<open>What the worker has passed on and freed\<close>

text \<open>
  The calls of \<open>next_place_work\<close> among the events of a worker, each with the string
  passed and the string returned, and the strings passed from step 4 of the loop body.
\<close>

fun calls :: "wevent list \<Rightarrow> (string \<times> string option) list" where
  "calls [] = []"
| "calls (Forward s r # ev) = (s, r) # calls ev"
| "calls (Forward_End r # ev) = (END_SENTINEL, r) # calls ev"
| "calls (e # ev) = calls ev"

fun forwards :: "wevent list \<Rightarrow> string list" where
  "forwards [] = []"
| "forwards (Forward s r # ev) = s # forwards ev"
| "forwards (e # ev) = forwards ev"

text \<open>
  How the sentinel in buffer \<open>a\<close> has been disposed of, in the heap \<open>h\<close> and the
  list \<open>log\<close> of the calls of \<open>next_place_work\<close> that have returned: a stage that
  is not wired has made no call and has freed the buffer; the last call of a wired stage
  is the one that was given the sentinel, and if that call returned an error the buffer
  has been freed.
\<close>

definition sentinel_disposed ::
  "bool \<Rightarrow> addr \<Rightarrow> heap \<Rightarrow> (string \<times> string option) list \<Rightarrow> bool" where
  "sentinel_disposed is_wired a h log \<longleftrightarrow>
     (if is_wired
      then log \<noteq> [] \<and> fst (last log) = END_SENTINEL \<and>
           (snd (last log) = None \<or> a \<in> set (freed h))
      else log = [] \<and> a \<in> set (freed h))"

text \<open>
  The worker's effects against its events, for a worker whose transform is \<open>p\<close> and
  whose calls of \<open>next_place_work\<close> are noted: the calls noted are those of the
  events; a stage that is not wired has made none; if \<open>p\<close> makes the sentinel out of
  no payload, no payload passed on is the sentinel; a buffer that the sentinel branch
  has freed is in the log of the heap; and a worker that has read the sentinel has not
  run into undefined behaviour.
\<close>

definition effects_inv ::
  "(string \<Rightarrow> transform_result) \<Rightarrow> ('f, 'd \<times> (string \<times> string option) list) stage \<Rightarrow>
   worker_pc \<Rightarrow> wevent list \<Rightarrow> bool" where
  "effects_inv p st pc ev \<longleftrightarrow>
     queue (g_plugin_context st) \<noteq> None \<and>
     process_function (g_plugin_context st) = Some p \<and>
     snd (downstream st) = calls ev \<and>
     (wired (g_plugin_context st) = None \<longrightarrow> calls ev = []) \<and>
     ((\<forall>s. p s \<noteq> New_Buffer END_SENTINEL) \<longrightarrow> END_SENTINEL \<notin> set (forwards ev)) \<and>
     (case end_handling ev of
        None \<Rightarrow> True
      | Some (a, rest) \<Rightarrow>
          pc \<noteq> W_Crash \<and> (Free a \<in> set rest \<longrightarrow> a \<in> set (freed (heap st))))"

section \<open>The controller's attach step (main.c)\<close>

text \<open>
  \<open>plugin_handle_t\<close>: the five function pointers that stage 2 resolves in a loaded
  module. Every module has its own copy of the stage runtime and of
  \<open>g_plugin_context\<close>, so a resolved pointer is written as the number of the module
  whose function it is, and \<open>None\<close> is a null pointer. The pipeline is the list of the
  modules' contexts, and \<open>next_place_work\<close> in a context is then the number of the
  module whose \<open>plugin_place_work\<close> it points to. The module's name and the
  \<open>dlopen\<close> handle play no part here and are left out.
\<close>

record plugin_handle =
  h_init :: "nat option"
  h_fini :: "nat option"
  h_place_work :: "nat option"
  h_attach :: "nat option"
  h_wait_finished :: "nat option"

text \<open>The handle of module \<open>i\<close> as \<open>stage2_load_plugins\<close> fills it.\<close>

definition loaded_handle :: "nat \<Rightarrow> plugin_handle" where
  "loaded_handle i =
     \<lparr>h_init = Some i, h_fini = Some i, h_place_work = Some i, h_attach = Some i,
      h_wait_finished = Some i\<rparr>"

text \<open>
  On an internal error \<open>stage4_attach_plugins\<close> calls \<open>stage4_cleanup_and_exit\<close>
  and does not come back. What that function then does (it calls \<open>fini\<close> of every
  module, unloads the modules and calls \<open>exit(2)\<close>) is not modelled:
  \<open>Cleanup_And_Exit\<close> is the call itself, with the array and the count it is given
  and the contexts as they are at that moment.
\<close>

datatype stage4_error =
  Cleanup_And_Exit "plugin_handle list option" int "nat plugin_context list"

text \<open>
  The loop of \<open>stage4_attach_plugins\<close>, from index \<open>i\<close> on. The call
  \<open>plugins[i].attach(p)\<close> runs \<open>plugin_attach\<close> in the module the pointer belongs
  to.
\<close>

function attach_loop ::
  "plugin_handle list \<Rightarrow> int \<Rightarrow> int \<Rightarrow> nat plugin_context list \<Rightarrow>
   stage4_error + nat plugin_context list" where
  "attach_loop plugins plugin_count i ctxs =
     (if i < plugin_count - 1
      then (case h_attach (plugins ! nat i) of
              None \<Rightarrow> Inl (Cleanup_And_Exit (Some plugins) plugin_count ctxs)
            | Some a \<Rightarrow>
                (case h_place_work (plugins ! nat (i + 1)) of
                   None \<Rightarrow> Inl (Cleanup_And_Exit (Some plugins) plugin_count ctxs)
                 | Some p \<Rightarrow>
                     attach_loop plugins plugin_count (i + 1)
                       (ctxs[a := fst (plugin_attach (Some p) (ctxs ! a))])))
      else Inr ctxs)"
  by pat_completeness auto
termination
  by (relation "measure (\<lambda>(plugins, plugin_count, i, ctxs). nat (plugin_count - 1 - i))") auto

text \<open>
  \<open>stage4_attach_plugins\<close>. \<open>plugins\<close> is \<open>None\<close> for a null array. The first
  check passes on \<open>plugin_count > 0 ? plugin_count : 0\<close> as the count.
\<close>

definition stage4_attach_plugins ::
  "plugin_handle list option \<Rightarrow> int \<Rightarrow> nat plugin_context list \<Rightarrow>
   stage4_error + nat plugin_context list" where
  "stage4_attach_plugins plugins plugin_count ctxs =
     (case plugins of
        None \<Rightarrow>
          Inl (Cleanup_And_Exit None (if plugin_count > 0 then plugin_count else 0) ctxs)
      | Some hs \<Rightarrow>
          if plugin_count < 0 then Inl (Cleanup_And_Exit (Some hs) 0 ctxs)
          else if plugin_count = 0 then Inl (Cleanup_And_Exit (Some hs) 0 ctxs)
          else if plugin_count = 1 then Inr ctxs
          else attach_loop hs plugin_count 0 ctxs)"

text \<open>
  A context as stage 3 leaves it: \<open>common_plugin_init\<close> has succeeded, and the worker
  has not met the sentinel.
\<close>

definition initialized_stage :: "'f plugin_context \<Rightarrow> bool" where
  "initialized_stage ctx \<longleftrightarrow>
     plugin_initialized ctx \<and> \<not> finished ctx \<and> \<not> attached ctx \<and> next_place_work ctx = None"

section \<open>Concrete runs\<close>

text \<open>
  A queue of capacity 1 with five calls. Under \<open>race_schedule\<close> the first \<open>put\<close>
  fills the queue, the second passes its checks and goes to sleep because the queue
  is full, and \<open>signal_finished\<close> then runs to its end: the state reached is the one
  of a \<open>put\<close> that began before the queue was finished and is still blocked.
\<close>

definition race_queue :: "nat consumer_producer" where
  "race_queue = snd (consumer_producer_init zeroed_queue 1)"

definition race_threads :: "nat thread list" where
  "race_threads =
     [Put (Put_Start (Some 7)), Put (Put_Start (Some 8)), Signal_Finished SF_Start,
      Get Get_Start, Wait_Finished WF_Start]"

definition race_schedule :: "nat list" where
  "race_schedule = [0, 0, 0, 0, 1, 1, 1, 2, 2, 2, 2]"

definition race_blocked :: "nat system" where
  "race_blocked = fst (run race_schedule (race_queue, race_threads))"

text \<open>
  From there: the consumer removes the first item, the blocked \<open>put\<close> wakes up and
  completes, the consumer's call returns.
\<close>

definition race_schedule_more :: "nat list" where
  "race_schedule_more = [3, 3, 3, 1, 1, 1, 3, 4, 4, 4]"

definition race_resumed :: "nat system" where
  "race_resumed = fst (run (race_schedule @ race_schedule_more) (race_queue, race_threads))"

text \<open>
  An empty queue of capacity 1 on which \<open>signal_finished\<close> has run, and a consumer
  that has come to the locked region of its \<open>get\<close>.
\<close>

definition finished_empty :: "nat system" where
  "finished_empty =
     fst (run [0, 0, 0, 0, 1] (race_queue, [Signal_Finished SF_Start, Get Get_Start]))"

text \<open>
  A queue of capacity 2 with two producers and two consumers, each call running to its
  end in turn.
\<close>

definition fifo_queue :: "nat consumer_producer" where
  "fifo_queue = snd (consumer_producer_init zeroed_queue 2)"

definition fifo_threads :: "nat thread list" where
  "fifo_threads =
     [Put (Put_Start (Some 7)), Put (Put_Start (Some 8)), Get Get_Start, Get Get_Start]"

definition fifo_schedule :: "nat list" where
  "fifo_schedule = [0, 0, 0, 0, 1, 1, 1, 1, 2, 2, 2, 2, 3, 3, 3, 3]"

text \<open>
  A pipeline of two stages with a capacity of 8. Both transforms return their
  argument, as \<open>logger\<close> does. \<open>stage_after_init\<close> is a context as
  \<open>common_plugin_init\<close> leaves it; the first stage is then attached to the second
  one's \<open>plugin_place_work\<close>, and the second is left as stage 4 leaves the last one.
\<close>

definition same_pointer :: "string \<Rightarrow> transform_result" where
  "same_pointer s = Same_Pointer"

definition stage_after_init :: "nat plugin_context" where
  "stage_after_init =
     snd (common_plugin_init (Some same_pointer) (Some ''logger'') 8 zeroed_queue
            zeroed_context)"

definition pipeline_contexts :: "nat plugin_context list" where
  "pipeline_contexts =
     projr (stage4_attach_plugins (Some [loaded_handle 0, loaded_handle 1]) 2
              [stage_after_init, stage_after_init])"

definition first_stage :: "(nat, nat plugin_context) stage" where
  "first_stage =
     \<lparr>g_plugin_context = pipeline_contexts ! 0, heap = empty_heap,
      downstream = pipeline_contexts ! 1\<rparr>"

text \<open>
  The controller feeds \<open>hello\<close> and then the sentinel to the first stage (threads 1
  and 2), and the first stage's worker (thread 0) runs until it returns.
\<close>

definition first_stage_threads :: "nat sthread list" where
  "first_stage_threads =
     [Worker W_Entry, Place_Work (PW_Start (Some ''hello'')),
      Place_Work (PW_Start (Some ''<END>''))]"

definition first_stage_schedule :: "nat list" where
  "first_stage_schedule = replicate 5 1 @ replicate 5 2 @ replicate 14 0"

definition first_stage_done ::
  "(nat, nat plugin_context) stage_system \<times> (nat \<times> wevent) list" where
  "first_stage_done =
     stage_run place_work_call first_stage_schedule (first_stage, first_stage_threads)"

text \<open>
  Then the worker of the second stage runs until it returns, on the heap and the
  context that the first stage has left. The second stage is the last one and calls
  nothing.
\<close>

definition no_callee :: "(nat, unit) callee" where
  "no_callee f s h d = Some (None, h, d)"

definition second_stage :: "(nat, unit) stage" where
  "second_stage =
     \<lparr>g_plugin_context = downstream (fst (fst first_stage_done)),
      heap = heap (fst (fst first_stage_done)), downstream = ()\<rparr>"

definition second_stage_done :: "(nat, unit) stage_system \<times> (nat \<times> wevent) list" where
  "second_stage_done =
     stage_run no_callee (replicate 14 0) (second_stage, [Worker W_Entry])"

text \<open>
  A stage whose queue is finished while it is empty, the sentinel never having been
  put: \<open>signal_finished\<close> is called on the queue (thread 1) and the worker (thread 0)
  then comes to its \<open>get\<close>.
\<close>

definition idle_stage :: "(nat, unit) stage" where
  "idle_stage = \<lparr>g_plugin_context = stage_after_init, heap = empty_heap, downstream = ()\<rparr>"

definition idle_threads :: "nat sthread list" where
  "idle_threads = [Worker W_Entry, Queue_Op (Signal_Finished SF_Start)]"

definition idle_schedule :: "nat list" where
  "idle_schedule = [1, 1, 1, 1, 0, 0]"

definition idle_reached :: "(nat, unit) stage_system" where
  "idle_reached = fst (stage_run no_callee idle_schedule (idle_stage, idle_threads))"

text \<open>
  The first stage of the pipeline of two stages again, fed \<open>hello\<close> and the
  sentinel, with the calls of \<open>next_place_work\<close> noted.
\<close>

definition recorded_stage ::
  "(nat, nat plugin_context \<times> (string \<times> string option) list) stage" where
  "recorded_stage =
     \<lparr>g_plugin_context = pipeline_contexts ! 0, heap = empty_heap,
      downstream = (pipeline_contexts ! 1, [])\<rparr>"

definition recorded_stage_done ::
  "(nat, nat plugin_context \<times> (string \<times> string option) list) stage_system \<times>
   (nat \<times> wevent) list" where
  "recorded_stage_done =
     stage_run (recording place_work_call) first_stage_schedule
       (recorded_stage, first_stage_threads)"

text \<open>
  The transform of \<open>uppercaser\<close> (\<open>plugin_transform\<close> in
  \<open>plugins/uppercaser.c\<close>) on a non-null input: the sentinel and the empty string
  come back as they are, any other string as a new buffer in which the letters \<open>a\<close>
  to \<open>z\<close> are replaced by \<open>'A' + (ch - 'a')\<close>.
\<close>

definition to_upper :: "char \<Rightarrow> char" where
  "to_upper ch =
     (if (97::nat) \<le> of_char ch \<and> of_char ch \<le> (122::nat)
      then char_of (65 + (of_char ch - (97::nat)))
      else ch)"

definition uppercaser_transform :: "string \<Rightarrow> transform_result" where
  "uppercaser_transform inp =
     (if is_end (Some inp) then Same_Pointer
      else if length inp = 0 then Same_Pointer
      else New_Buffer (map to_upper inp))"

text \<open>
  A pipeline of \<open>uppercaser\<close> and \<open>logger\<close> with a capacity of 8, wired by stage 4.
  The controller feeds the line \<open><end>\<close> and then the sentinel to the first stage
  (threads 1 and 2), and the first stage's worker (thread 0) runs until it returns.
\<close>

definition upper_after_init :: "nat plugin_context" where
  "upper_after_init =
     snd (common_plugin_init (Some uppercaser_transform) (Some ''uppercaser'') 8 zeroed_queue
            zeroed_context)"

definition upper_contexts :: "nat plugin_context list" where
  "upper_contexts =
     projr (stage4_attach_plugins (Some [loaded_handle 0, loaded_handle 1]) 2
              [upper_after_init, stage_after_init])"

definition upper_stage ::
  "(nat, nat plugin_context \<times> (string \<times> string option) list) stage" where
  "upper_stage =
     \<lparr>g_plugin_context = upper_contexts ! 0, heap = empty_heap,
      downstream = (upper_contexts ! 1, [])\<rparr>"

definition upper_threads :: "nat sthread list" where
  "upper_threads =
     [Worker W_Entry, Place_Work (PW_Start (Some ''<end>'')),
      Place_Work (PW_Start (Some ''<END>''))]"

definition upper_stage_done ::
  "(nat, nat plugin_context \<times> (string \<times> string option) list) stage_system \<times>
   (nat \<times> wevent) list" where
  "upper_stage_done =
     stage_run (recording place_work_call) first_stage_schedule (upper_stage, upper_threads)"

lemma events_of_simps [simp]:
  "events_of w [] = []"
  "events_of w (xs @ ys) = events_of w xs @ events_of w ys"
  "events_of w (map (Pair i) ev) = (if i = w then ev else [])"
  by (simp_all add: events_of_def comp_def)

lemma events_simps [simp]:
  "events [] = []"
  "events (xs @ ys) = events xs @ events ys"
  "events (map (Pair i) ev) = ev"
  by (simp_all add: events_def comp_def)

lemma ring_index_inj:
  fixes h i j c :: int
  assumes "0 \<le> i" "i < c" "0 \<le> j" "j < c" "(h + i) mod c = (h + j) mod c"
  shows "i = j"
proof -
  have "c dvd (h + i) - (h + j)"
    using assms(5) by (simp add: mod_eq_dvd_iff)
  then have "c dvd i - j" by simp
  moreover have "\<bar>i - j\<bar> < c" using assms by linarith
  ultimately have "i - j = 0"
    using zdvd_not_zless[of "\<bar>i - j\<bar>" c] by (cases "i - j = 0") auto
  then show ?thesis by simp
qed


lemma queue_invD:
  assumes "queue_inv q"
  shows "initialized q" "0 < capacity q" "length (items q) = nat (capacity q)"
    "0 \<le> head q" "head q < capacity q" "0 \<le> count q" "count q \<le> capacity q"
    "tail q = (head q + count q) mod capacity q"
    "m_initialized (not_full_monitor q)" "m_initialized (not_empty_monitor q)"
    "m_initialized (finished_monitor q)"
  using assms unfolding queue_inv_def by blast+

lemma tail_range:
  assumes "queue_inv q"
  shows "0 \<le> tail q" "tail q < capacity q"
  using queue_invD(2,8)[OF assms] by simp_all

lemma ring_slot_distinct:
  fixes h i j c :: int
  assumes "0 < c" "0 \<le> i" "i < c" "0 \<le> j" "j < c" "i \<noteq> j"
  shows "nat ((h + i) mod c) \<noteq> nat ((h + j) mod c)"
proof
  assume "nat ((h + i) mod c) = nat ((h + j) mod c)"
  moreover have "0 \<le> (h + i) mod c" "0 \<le> (h + j) mod c"
    using assms(1) by simp_all
  ultimately have "(h + i) mod c = (h + j) mod c" by linarith
  with assms show False using ring_index_inj[of i c j h] by blast
qed

lemma contents_enqueue:
  assumes "queue_inv q" "count q < capacity q"
  shows "contents (enqueue x q) = contents q @ [Some x]"
proof -
  let ?c = "capacity q"
  note inv = queue_invD[OF assms(1)]
  have n: "nat (count q + 1) = Suc (nat (count q))"
    using inv(6) by (simp add: nat_add_distrib)
  have tl: "nat (tail q) < length (items q)"
    using tail_range[OF assms(1)] inv(3) by simp
  have old: "(items q)[nat (tail q) := Some x] ! nat ((head q + int i) mod ?c)
             = items q ! nat ((head q + int i) mod ?c)" if "i < nat (count q)" for i
  proof -
    have "int i < count q" using that by linarith
    then have "nat ((head q + int i) mod ?c) \<noteq> nat ((head q + count q) mod ?c)"
      using ring_slot_distinct[of ?c "int i" "count q" "head q"] inv(2,6) assms(2)
      by simp
    then show ?thesis using inv(8) by simp
  qed
  have cnt: "int (nat (count q)) = count q" using inv(6) by simp
  have new: "(items q)[nat (tail q) := Some x] ! nat ((head q + int (nat (count q))) mod ?c) = Some x"
    unfolding cnt inv(8)[symmetric] using tl by simp
  have "contents (enqueue x q) =
        map (\<lambda>i. (items q)[nat (tail q) := Some x] ! nat ((head q + int i) mod ?c))
          ([0 ..< nat (count q)] @ [nat (count q)])"
    unfolding contents_def enqueue_def by (simp add: n)
  also have "\<dots> = map (\<lambda>i. items q ! nat ((head q + int i) mod ?c)) [0 ..< nat (count q)] @ [Some x]"
    using old new by simp
  finally show ?thesis unfolding contents_def .
qed


lemma contents_dequeue:
  assumes "queue_inv q" "0 < count q"
  shows "contents q = fst (dequeue q) # contents (snd (dequeue q))"
proof -
  let ?c = "capacity q"
  note inv = queue_invD[OF assms(1)]
  obtain n where n: "nat (count q) = Suc n" "nat (count q - 1) = n"
    using assms(2) by (cases "nat (count q)") auto
  have shift: "((head q + 1) mod ?c + int i) mod ?c = (head q + (1 + int i)) mod ?c" for i
    by (simp add: mod_add_left_eq add.assoc)
  have h0: "(head q + 0) mod ?c = head q" using inv(4,5) by simp
  have old: "(items q)[nat (head q) := None] ! nat ((head q + (1 + int i)) mod ?c)
             = items q ! nat ((head q + (1 + int i)) mod ?c)" if "i < n" for i
  proof -
    have "1 + int i < ?c" using that n(1) inv(7) by linarith
    then have "nat ((head q + (1 + int i)) mod ?c) \<noteq> nat ((head q + 0) mod ?c)"
      using ring_slot_distinct[of ?c "1 + int i" 0 "head q"] inv(2) by simp
    then show ?thesis unfolding h0 by simp
  qed
  have "contents q = map (\<lambda>i. items q ! nat ((head q + int i) mod ?c)) (0 # map Suc [0 ..< n])"
    unfolding contents_def n(1) by (simp only: upt_conv_Cons[of 0] map_Suc_upt)
  also have "\<dots> = items q ! nat (head q) # map (\<lambda>i. items q ! nat ((head q + (1 + int i)) mod ?c)) [0 ..< n]"
    using h0 by (simp add: comp_def)
  finally have 1: "contents q = items q ! nat (head q) # map (\<lambda>i. items q ! nat ((head q + (1 + int i)) mod ?c)) [0 ..< n]" .
  have "contents (snd (dequeue q)) =
        map (\<lambda>i. (items q)[nat (head q) := None] ! nat ((head q + (1 + int i)) mod ?c)) [0 ..< n]"
    unfolding contents_def dequeue_def by (simp add: n(2) shift)
  also have "\<dots> = map (\<lambda>i. items q ! nat ((head q + (1 + int i)) mod ?c)) [0 ..< n]"
    using old by simp
  finally show ?thesis using 1 by (simp add: dequeue_def)
qed


lemma monitor_ops_initialized [simp]:
  "m_initialized (monitor_signal m) = m_initialized m"
  "m_initialized (monitor_reset m) = m_initialized m"
  by (simp_all add: monitor_signal_def monitor_reset_def)

lemma queue_inv_enqueue:
  assumes "queue_inv q" "count q < capacity q"
  shows "queue_inv (enqueue x q)"
proof -
  note inv = queue_invD[OF assms(1)]
  have "(head q + (count q + 1)) mod capacity q = ((head q + count q) mod capacity q + 1) mod capacity q"
    by (simp add: mod_add_left_eq add.assoc)
  then show ?thesis
    using inv assms(2) unfolding queue_inv_def enqueue_def by simp
qed

lemma queue_inv_dequeue:
  assumes "queue_inv q" "0 < count q"
  shows "queue_inv (snd (dequeue q))"
proof -
  note inv = queue_invD[OF assms(1)]
  have "((head q + 1) mod capacity q + (count q - 1)) mod capacity q = (head q + count q) mod capacity q"
    by (simp add: mod_add_left_eq)
  then show ?thesis
    using inv assms(2) unfolding queue_inv_def dequeue_def by simp
qed

lemma queue_inv_monitors:
  assumes "queue_inv q"
  shows "queue_inv (q\<lparr>not_full_monitor := monitor_reset (not_full_monitor q)\<rparr>)"
    "queue_inv (q\<lparr>not_full_monitor := monitor_signal (not_full_monitor q)\<rparr>)"
    "queue_inv (q\<lparr>not_empty_monitor := monitor_reset (not_empty_monitor q)\<rparr>)"
    "queue_inv (q\<lparr>not_empty_monitor := monitor_signal (not_empty_monitor q)\<rparr>)"
    "queue_inv (q\<lparr>finished_monitor := monitor_reset (finished_monitor q)\<rparr>)"
    "queue_inv (q\<lparr>finished_monitor := monitor_signal (finished_monitor q)\<rparr>)"
    "queue_inv (q\<lparr>finished_flag := b\<rparr>)"
  using assms unfolding queue_inv_def by simp_all

lemma contents_monitors [simp]:
  "contents (q\<lparr>not_full_monitor := m\<rparr>) = contents q"
  "contents (q\<lparr>not_empty_monitor := m\<rparr>) = contents q"
  "contents (q\<lparr>finished_monitor := m\<rparr>) = contents q"
  "contents (q\<lparr>finished_flag := b\<rparr>) = contents q"
  by (simp_all add: contents_def)

lemma step_ok_refl: "queue_inv q \<Longrightarrow> step_ok q q []"
  by (simp add: step_ok_def)

lemma put_loop_ok:
  assumes "queue_inv q" "put_loop x q = (q', pc', ev)"
  shows "step_ok q q' ev"
proof (cases "queue_is_full q")
  case True
  with assms show ?thesis
    by (auto simp: put_loop_def step_ok_def queue_inv_monitors)
next
  case False
  then have lt: "count q < capacity q"
    using queue_invD(7)[OF assms(1)] by (simp add: queue_is_full_def)
  have "q' = enqueue x q" "ev = [Enq x]"
    using assms(2) False by (simp_all add: put_loop_def)
  then show ?thesis
    using queue_inv_enqueue[OF assms(1) lt] contents_enqueue[OF assms(1) lt]
    by (simp add: step_ok_def enqueue_def)
qed

lemma put_step_ok:
  assumes "queue_inv q" "put_step q pc = Some (q', pc', ev)"
  shows "step_ok q q' ev"
proof (cases pc)
  case (Put_Start x)
  with assms show ?thesis
    by (cases x) (auto simp: step_ok_refl split: if_splits)
next
  case (Put_Lock x)
  with assms show ?thesis
    by (auto simp: step_ok_refl put_loop_ok split: if_splits)
next
  case (Put_Wait x)
  with assms show ?thesis
    by (auto simp: step_ok_refl split: option.splits if_splits)
next
  case (Put_Relock x)
  with assms show ?thesis by (auto simp: put_loop_ok)
next
  case Put_Signal
  with assms show ?thesis
    by (auto simp: step_ok_def queue_inv_monitors)
next
  case (Put_Return r)
  with assms show ?thesis by simp
qed

lemma get_loop_ok:
  assumes "queue_inv q" "get_loop q = (q', pc', ev)"
  shows "step_ok q q' ev"
proof (cases "queue_is_empty q")
  case True
  with assms show ?thesis
    by (auto simp: get_loop_def step_ok_def queue_inv_monitors split: if_splits)
next
  case False
  then have gt: "0 < count q"
    using queue_invD(6)[OF assms(1)] by (simp add: queue_is_empty_def)
  have "q' = snd (dequeue q)" "ev = [Deq (fst (dequeue q))]"
    using assms(2) False by (simp_all add: get_loop_def split: prod.splits)
  then show ?thesis
    using queue_inv_dequeue[OF assms(1) gt] contents_dequeue[OF assms(1) gt]
    by (simp add: step_ok_def dequeue_def)
qed

lemma get_step_ok:
  assumes "queue_inv q" "get_step q pc = Some (q', pc', ev)"
  shows "step_ok q q' ev"
proof (cases pc)
  case Get_Start
  with assms show ?thesis by (auto simp: step_ok_refl split: if_splits)
next
  case Get_Lock
  with assms show ?thesis by (auto simp: get_loop_ok)
next
  case Get_Wait
  with assms show ?thesis
    by (auto simp: step_ok_refl split: option.splits if_splits)
next
  case Get_Relock
  with assms show ?thesis by (auto simp: get_loop_ok)
next
  case (Get_Signal x b)
  with assms show ?thesis by (auto simp: step_ok_def queue_inv_monitors)
next
  case (Get_Signal_Finished x)
  with assms show ?thesis by (auto simp: step_ok_def queue_inv_monitors)
next
  case (Get_Return r)
  with assms show ?thesis by simp
qed

lemma signal_finished_step_ok:
  assumes "queue_inv q" "signal_finished_step q pc = Some (q', pc', ev)"
  shows "step_ok q q' ev"
  using assms
  by (cases pc) (auto simp: step_ok_def queue_inv_monitors split: if_splits)

lemma wf_phase2_ok:
  assumes "queue_inv q" "wf_phase2 q = (q', pc', ev)"
  shows "step_ok q q' ev"
  using assms by (auto simp: wf_phase2_def step_ok_def queue_inv_monitors split: if_splits)

lemma wf_phase1_ok:
  assumes "queue_inv q" "wf_phase1 q = (q', pc', ev)"
  shows "step_ok q q' ev"
  using assms wf_phase2_ok[of q q' pc' ev]
  by (auto simp: wf_phase1_def step_ok_def queue_inv_monitors split: if_splits)

lemma wait_finished_step_ok:
  assumes "queue_inv q" "wait_finished_step q pc = Some (q', pc', ev)"
  shows "step_ok q q' ev"
  using assms
  by (cases pc)
     (auto simp: step_ok_refl wf_phase1_ok wf_phase2_ok split: if_splits option.splits)

lemma thread_step_ok:
  assumes "queue_inv q" "thread_step q t = Some (q', t', ev)"
  shows "step_ok q q' ev"
  using assms
  by (cases t) (auto simp: put_step_ok get_step_ok signal_finished_step_ok wait_finished_step_ok)

lemma sys_step_ok:
  assumes "queue_inv q" "sys_step i (q, ts) = ((q', ts'), ev)"
  shows "step_ok q q' (events ev)"
  using assms thread_step_ok[of q "ts ! i"]
  by (auto simp: sys_step_def step_ok_refl split: if_splits option.splits)

lemma enqueued_append [simp]: "enqueued (xs @ ys) = enqueued xs @ enqueued ys"
  by (induction xs rule: enqueued.induct) simp_all

lemma dequeued_append [simp]: "dequeued (xs @ ys) = dequeued xs @ dequeued ys"
  by (induction xs rule: dequeued.induct) simp_all

lemma step_ok_trans:
  assumes "step_ok q q1 ev1" "step_ok q1 q2 ev2"
  shows "step_ok q q2 (ev1 @ ev2)"
  using assms unfolding step_ok_def by (metis append.assoc dequeued_append enqueued_append map_append)

lemma run_ok:
  assumes "queue_inv q" "run sched (q, ts) = ((q', ts'), evs)"
  shows "step_ok q q' (events evs)"
  using assms
proof (induction sched arbitrary: q ts evs)
  case Nil
  then show ?case by (simp add: step_ok_refl)
next
  case (Cons i sched)
  obtain q1 ts1 ev1 where s1: "sys_step i (q, ts) = ((q1, ts1), ev1)"
    by (metis surj_pair)
  obtain evs1 where r: "run sched (q1, ts1) = ((q', ts'), evs1)" and e: "evs = ev1 @ evs1"
    using Cons.prems(2) s1 by (auto split: prod.splits)
  have ok1: "step_ok q q1 (events ev1)" using sys_step_ok[OF Cons.prems(1) s1] .
  then have "queue_inv q1" by (simp add: step_ok_def)
  from Cons.IH[OF this r] ok1 show ?case unfolding e
    by (simp add: step_ok_trans)
qed
lemma init_ok:
  assumes "consumer_producer_init q0 c = (None, q)"
  shows "queue_inv q" "capacity q = c" "count q = 0" "\<not> finished_flag q" "1 \<le> c" "contents q = []"
    "c \<le> INT_MAX div sizeof_ptr"
  using assms
  unfolding consumer_producer_init_def monitor_init_def queue_inv_def contents_def Let_def
  by (auto split: if_splits prod.splits)

lemma contents_hd:
  assumes "queue_inv q" "0 < count q"
  shows "fst (dequeue q) \<in> set (contents q)"
  using contents_dequeue[OF assms] by (metis list.set_intros(1))

lemma step_ok_nonnull:
  assumes "step_ok q q' ev" "items_nonnull q"
  shows "items_nonnull q'"
proof -
  have "set (contents q') \<subseteq> set (dequeued ev @ contents q')" by auto
  also have "\<dots> = set (contents q @ map Some (enqueued ev))"
    using assms(1) by (simp add: step_ok_def)
  finally show ?thesis using assms(2) unfolding items_nonnull_def by auto
qed

lemma thread_inv_stable:
  assumes "thread_inv q t" "finished_flag q \<longrightarrow> finished_flag q'"
  shows "thread_inv q' t"
  using assms by (induction q t rule: thread_inv.induct) simp_all

lemma get_loop_inv:
  assumes "queue_inv q" "items_nonnull q" "get_loop q = (q', pc', ev)"
  shows "thread_inv q' (Get pc')"
proof (cases "queue_is_empty q")
  case True
  with assms(3) show ?thesis by (auto simp: get_loop_def split: if_splits)
next
  case False
  then have gt: "0 < count q"
    using queue_invD(6)[OF assms(1)] by (simp add: queue_is_empty_def)
  have "fst (dequeue q) \<noteq> None"
    using contents_hd[OF assms(1) gt] assms(2) unfolding items_nonnull_def by metis
  moreover have "\<exists>b. pc' = Get_Signal (fst (dequeue q)) b"
    using assms(3) False by (auto simp: get_loop_def split: prod.splits)
  ultimately show ?thesis by auto
qed

lemma get_step_inv:
  assumes "queue_inv q" "items_nonnull q" "thread_inv q (Get pc)"
    "get_step q pc = Some (q', pc', ev)"
  shows "thread_inv q' (Get pc')"
proof (cases pc)
  case Get_Lock
  with assms show ?thesis using get_loop_inv[of q q' pc' ev] by simp
next
  case Get_Relock
  with assms show ?thesis using get_loop_inv[of q q' pc' ev] by simp
qed (use assms in \<open>auto split: if_splits option.splits\<close>)

lemma wf_phase2_inv:
  assumes "finished_flag q" "wf_phase2 q = (q', pc', ev)"
  shows "thread_inv q' (Wait_Finished pc')"
  using assms by (auto simp: wf_phase2_def split: if_splits)

lemma wf_phase1_inv:
  assumes "wf_phase1 q = (q', pc', ev)"
  shows "thread_inv q' (Wait_Finished pc')"
  using assms wf_phase2_inv[of q q' pc' ev]
  by (auto simp: wf_phase1_def split: if_splits)

lemma wait_finished_step_inv:
  assumes "thread_inv q (Wait_Finished pc)" "wait_finished_step q pc = Some (q', pc', ev)"
  shows "thread_inv q' (Wait_Finished pc')"
  using assms
  by (cases pc) (auto simp: wf_phase1_inv wf_phase2_inv split: if_splits option.splits)

lemma signal_finished_step_inv:
  assumes "thread_inv q (Signal_Finished pc)" "signal_finished_step q pc = Some (q', pc', ev)"
  shows "thread_inv q' (Signal_Finished pc')"
  using assms by (cases pc) (auto split: if_splits)

lemma thread_step_inv:
  assumes "queue_inv q" "items_nonnull q" "thread_inv q t" "thread_step q t = Some (q', t', ev)"
  shows "thread_inv q' t'"
proof (cases t)
  case (Put pc)
  with assms(4) obtain pc' where "t' = Put pc'" by auto
  then show ?thesis by simp
next
  case (Get pc)
  with assms show ?thesis using get_step_inv[of q pc] by auto
next
  case (Signal_Finished pc)
  with assms show ?thesis using signal_finished_step_inv[of q pc] by auto
next
  case (Wait_Finished pc)
  with assms show ?thesis using wait_finished_step_inv[of q pc] by auto
qed

lemma sys_step_inv:
  assumes "sys_inv s" "sys_step i s = (s', ev)"
  shows "sys_inv s'"
proof (cases "i < length (snd s)")
  case False
  with assms show ?thesis by (simp add: sys_step_def)
next
  case True
  show ?thesis
  proof (cases "thread_step (fst s) (snd s ! i)")
    case None
    with assms True show ?thesis by (simp add: sys_step_def)
  next
    case (Some r)
    obtain q' t' e where r: "r = (q', t', e)" by (cases r)
    have s': "s' = (q', (snd s)[i := t'])"
      using assms(2) True Some r by (simp_all add: sys_step_def)
    have qi: "queue_inv (fst s)" and nn: "items_nonnull (fst s)"
      and ti: "list_all (thread_inv (fst s)) (snd s)"
      using assms(1) by (simp_all add: sys_inv_def)
    have ok: "step_ok (fst s) q' e"
      using thread_step_ok[OF qi] Some r by simp
    have ti_i: "thread_inv (fst s) (snd s ! i)"
      using ti True by (simp add: list_all_length)
    have new: "thread_inv q' t'"
      using thread_step_inv[OF qi nn ti_i] Some r by simp
    have mono: "finished_flag (fst s) \<longrightarrow> finished_flag q'"
      using ok by (simp add: step_ok_def)
    have "list_all (thread_inv q') ((snd s)[i := t'])"
      unfolding list_all_length
    proof (intro allI impI)
      fix n assume "n < length ((snd s)[i := t'])"
      then have n: "n < length (snd s)" by simp
      show "thread_inv q' ((snd s)[i := t'] ! n)"
      proof (cases "n = i")
        case True
        with n new show ?thesis by simp
      next
        case False
        then have "(snd s)[i := t'] ! n = snd s ! n" by simp
        moreover have "thread_inv (fst s) (snd s ! n)"
          using ti n by (simp add: list_all_length)
        ultimately show ?thesis using thread_inv_stable mono by metis
      qed
    qed
    then show ?thesis
      using ok step_ok_nonnull[OF ok nn] unfolding s' sys_inv_def step_ok_def by simp
  qed
qed

lemma run_inv:
  assumes "sys_inv s" "run sched s = (s', evs)"
  shows "sys_inv s'"
  using assms
proof (induction sched arbitrary: s evs)
  case Nil
  then show ?case by simp
next
  case (Cons i sched)
  obtain s1 ev1 where s1: "sys_step i s = (s1, ev1)" by (cases "sys_step i s")
  obtain evs1 where r: "run sched s1 = (s', evs1)"
    using Cons.prems(2) s1 by (auto split: prod.splits)
  show ?case using Cons.IH[OF sys_step_inv[OF Cons.prems(1) s1] r] .
qed

lemma starting_inv: "starting t \<Longrightarrow> thread_inv q t"
  by (induction t rule: starting.induct) simp_all

lemma init_sys_inv:
  assumes "consumer_producer_init q0 c = (None, q)" "list_all starting ts"
  shows "sys_inv (q, ts)"
  using init_ok(1,6)[OF assms(1)] assms(2)
  by (auto simp: sys_inv_def items_nonnull_def list_all_iff starting_inv)


lemma reachable_inv:
  assumes "consumer_producer_init q0 c = (None, q)"
    and "list_all starting ts"
    and "run sched (q, ts) = ((q1, ts1), evs)"
  shows "queue_inv q1" "items_nonnull q1" "list_all (thread_inv q1) ts1"
  using run_inv[OF init_sys_inv[OF assms(1,2)] assms(3)]
  by (simp_all add: sys_inv_def)

lemma get_loop_cases:
  assumes "queue_inv q" "items_nonnull q"
  shows "queue_is_empty q \<and> \<not> finished_flag q \<Longrightarrow>
           get_loop q = (q\<lparr>not_empty_monitor := monitor_reset (not_empty_monitor q)\<rparr>, Get_Wait, [Reset Not_Empty])"
    and "queue_is_empty q \<and> finished_flag q \<Longrightarrow> get_loop q = (q, Get_Return None, [])"
    and "\<not> queue_is_empty q \<Longrightarrow>
           \<exists>x q2 b. get_loop q = (q2, Get_Signal (Some x) b, [Deq (Some x)]) \<and>
                    contents q = Some x # contents q2"
proof -
  show "queue_is_empty q \<and> \<not> finished_flag q \<Longrightarrow>
           get_loop q = (q\<lparr>not_empty_monitor := monitor_reset (not_empty_monitor q)\<rparr>, Get_Wait, [Reset Not_Empty])"
    by (simp add: get_loop_def)
  show "queue_is_empty q \<and> finished_flag q \<Longrightarrow> get_loop q = (q, Get_Return None, [])"
    by (simp add: get_loop_def)
  assume ne: "\<not> queue_is_empty q"
  then have gt: "0 < count q"
    using queue_invD(6)[OF assms(1)] by (simp add: queue_is_empty_def)
  have c: "contents q = fst (dequeue q) # contents (snd (dequeue q))"
    using contents_dequeue[OF assms(1) gt] .
  then have "fst (dequeue q) \<noteq> None"
    using assms(2) unfolding items_nonnull_def by (metis list.set_intros(1))
  then obtain x where x: "fst (dequeue q) = Some x" by blast
  have "get_loop q = (snd (dequeue q), Get_Signal (Some x)
          (count (snd (dequeue q)) = 0 \<and> finished_flag (snd (dequeue q))), [Deq (Some x)])"
    using ne x by (simp add: get_loop_def case_prod_beta)
  with c x show "\<exists>x q2 b. get_loop q = (q2, Get_Signal (Some x) b, [Deq (Some x)]) \<and>
                    contents q = Some x # contents q2" by metis
qed

lemma get_loop_return_iff:
  assumes "queue_inv q" "items_nonnull q" "get_loop q = (q2, pc', ev)"
  shows "pc' = Get_Return None \<longleftrightarrow> queue_is_empty q \<and> finished_flag q"
proof (cases "queue_is_empty q")
  case True
  with assms(3) show ?thesis by (cases "finished_flag q") (simp_all add: get_loop_def)
next
  case False
  from get_loop_cases(3)[OF assms(1,2) False] assms(3) False show ?thesis by auto
qed


lemma put_loop_cases:
  assumes "queue_inv q"
  shows "queue_is_full q \<Longrightarrow>
           put_loop x q = (q\<lparr>not_full_monitor := monitor_reset (not_full_monitor q)\<rparr>, Put_Wait x, [Reset Not_Full])"
    and "\<not> queue_is_full q \<Longrightarrow>
           put_loop x q = (enqueue x q, Put_Signal, [Enq x]) \<and>
           contents (enqueue x q) = contents q @ [Some x]"
proof -
  show "queue_is_full q \<Longrightarrow>
           put_loop x q = (q\<lparr>not_full_monitor := monitor_reset (not_full_monitor q)\<rparr>, Put_Wait x, [Reset Not_Full])"
    by (simp add: put_loop_def)
  assume nf: "\<not> queue_is_full q"
  then have lt: "count q < capacity q"
    using queue_invD(7)[OF assms] by (simp add: queue_is_full_def)
  show "put_loop x q = (enqueue x q, Put_Signal, [Enq x]) \<and>
           contents (enqueue x q) = contents q @ [Some x]"
    using nf contents_enqueue[OF assms lt] by (simp add: put_loop_def)
qed

lemma put_loop_no_return:
  "put_loop x q = (q2, pc', ev) \<Longrightarrow> pc' \<noteq> Put_Return r"
  by (auto simp: put_loop_def split: if_splits)

lemma err_strings_distinct:
  "ERR_AFTER_FINISHED \<noteq> ERR_ITEM_NULL" "ERR_AFTER_FINISHED \<noteq> ERR_NOT_INITIALIZED"
  "ERR_AFTER_FINISHED \<noteq> ERR_MONITOR_WAIT"
  by (simp_all add: ERR_AFTER_FINISHED_def ERR_ITEM_NULL_def ERR_NOT_INITIALIZED_def
      ERR_MONITOR_WAIT_def)

lemma get_alone_on_nonempty:
  assumes "queue_inv q" "items_nonnull q" "\<not> queue_is_empty q"
  shows "\<exists>x qg ev. exec get_step 4 q Get_Start = (qg, Get_Return (Some x), ev) \<and>
           contents q = Some x # contents qg \<and> queue_inv qg \<and>
           signaled (not_full_monitor qg) \<and> finished_flag qg = finished_flag q \<and>
           capacity qg = capacity q \<and> count qg = count q - 1"
proof -
  note qi = queue_invD[OF assms(1)]
  obtain x q2 b where g: "get_loop q = (q2, Get_Signal (Some x) b, [Deq (Some x)])"
    and c: "contents q = Some x # contents q2"
    using get_loop_cases(3)[OF assms] by blast
  have q2: "q2 = snd (dequeue q)"
    using g assms(3) by (simp add: get_loop_def case_prod_beta)
  have ok: "queue_inv q2"
    using get_loop_ok[OF assms(1) g] by (simp add: step_ok_def)
  note qi2 = queue_invD[OF ok]
  let ?q3 = "q2\<lparr>not_full_monitor := monitor_signal (not_full_monitor q2)\<rparr>"
  let ?q4 = "?q3\<lparr>finished_monitor := monitor_signal (finished_monitor ?q3)\<rparr>"
  have s3: "signaled (not_full_monitor ?q3)" "signaled (not_full_monitor ?q4)"
    using qi2(9) by (simp_all add: monitor_signal_def)
  have i3: "queue_inv ?q3" using queue_inv_monitors(2)[OF ok] .
  have i4: "queue_inv ?q4" using queue_inv_monitors(6)[OF i3] .
  have same: "finished_flag q2 = finished_flag q" "capacity q2 = capacity q"
    "count q2 = count q - 1"
    unfolding q2 by (simp_all add: dequeue_def)
  have four: "(4::nat) = Suc (Suc (Suc (Suc 0)))" by simp
  have e: "exec get_step 4 q Get_Start =
        (if b then (?q4, Get_Return (Some x), [Deq (Some x), Signal Not_Full, Signal Finished_Monitor])
         else (?q3, Get_Return (Some x), [Deq (Some x), Signal Not_Full]))"
    unfolding four using qi(1) g by simp
  show ?thesis
  proof (cases b)
    case True
    then have "exec get_step 4 q Get_Start =
       (?q4, Get_Return (Some x), [Deq (Some x), Signal Not_Full, Signal Finished_Monitor])"
      using e by simp
    moreover have "contents q = Some x # contents ?q4" using c by simp
    moreover have "finished_flag ?q4 = finished_flag q" "capacity ?q4 = capacity q"
      "count ?q4 = count q - 1" using same by simp_all
    ultimately show ?thesis using i4 s3(2) by blast
  next
    case False
    then have "exec get_step 4 q Get_Start =
       (?q3, Get_Return (Some x), [Deq (Some x), Signal Not_Full])"
      using e by simp
    moreover have "contents q = Some x # contents ?q3" using c by simp
    moreover have "finished_flag ?q3 = finished_flag q" "capacity ?q3 = capacity q"
      "count ?q3 = count q - 1" using same by simp_all
    ultimately show ?thesis using i3 s3(1) by blast
  qed
qed

lemma put_alone_after_wait:
  assumes "queue_inv q" "signaled (not_full_monitor q)" "\<not> queue_is_full q"
  shows "\<exists>qp ev. exec put_step 3 q (Put_Wait x) = (qp, Put_Return None, ev) \<and>
           contents qp = contents q @ [Some x]"
proof -
  note qi = queue_invD[OF assms(1)]
  have three: "(3::nat) = Suc (Suc (Suc 0))" by simp
  have "exec put_step 3 q (Put_Wait x) =
        ((enqueue x q)\<lparr>not_empty_monitor := monitor_signal (not_empty_monitor (enqueue x q))\<rparr>,
         Put_Return None, [Enq x, Signal Not_Empty])"
    unfolding three using qi(9) assms(2) put_loop_cases(2)[OF assms(1,3), of x]
    by (simp add: monitor_wait_def)
  then show ?thesis using put_loop_cases(2)[OF assms(1,3), of x] by simp
qed

text \<open>What a single call contributes to the trace.\<close>

lemma put_loop_call:
  assumes "put_loop x q = (q', pc', e)" "enqueued ev = []" "dequeued ev = []"
  shows "put_inv (Some x) pc' (ev @ e)"
  using assms by (auto simp: put_loop_def enqueued_append dequeued_append split: if_splits)

lemma put_step_call:
  assumes "put_inv item pc ev" "put_step q pc = Some (q', pc', e)"
  shows "put_inv item pc' (ev @ e)"
proof (cases pc)
  case (Put_Start xo)
  with assms show ?thesis by (cases xo) (auto split: if_splits)
next
  case (Put_Lock x)
  with assms put_loop_call[of x q q' pc' e ev] show ?thesis
    by (auto split: if_splits simp: enqueued_append dequeued_append)
next
  case (Put_Wait x)
  with assms show ?thesis by (auto split: option.splits if_splits)
next
  case (Put_Relock x)
  with assms put_loop_call[of x q q' pc' e ev] show ?thesis
    by (auto split: if_splits simp: enqueued_append dequeued_append)
next
  case Put_Signal
  with assms show ?thesis by auto
next
  case (Put_Return r)
  with assms show ?thesis by simp
qed

lemma get_loop_call:
  assumes "queue_inv q" "items_nonnull q" "get_loop q = (q', pc', e)"
    and "enqueued ev = []" "dequeued ev = []"
  shows "get_inv pc' (ev @ e)"
proof (cases "queue_is_empty q")
  case True
  with assms(3-) show ?thesis
    by (cases "finished_flag q") (auto simp: get_loop_def enqueued_append dequeued_append)
next
  case False
  from get_loop_cases(3)[OF assms(1,2) False] assms(3-) show ?thesis
    by (auto simp: enqueued_append dequeued_append)
qed

lemma get_step_call:
  assumes "queue_inv q" "items_nonnull q" "get_inv pc ev" "get_step q pc = Some (q', pc', e)"
  shows "get_inv pc' (ev @ e)"
proof (cases pc)
  case Get_Start
  with assms show ?thesis by (auto split: if_splits)
next
  case Get_Lock
  with assms get_loop_call[OF assms(1,2), of q' pc' e ev] show ?thesis
    by auto
next
  case Get_Wait
  with assms show ?thesis by (auto split: option.splits if_splits)
next
  case Get_Relock
  with assms get_loop_call[OF assms(1,2), of q' pc' e ev] show ?thesis
    by auto
next
  case (Get_Signal y b)
  with assms show ?thesis by (cases y) (auto split: if_splits)
next
  case (Get_Signal_Finished y)
  with assms show ?thesis by (cases y) auto
next
  case (Get_Return r)
  with assms show ?thesis by simp
qed

lemma signal_finished_step_events:
  "signal_finished_step q pc = Some (q', pc', e) \<Longrightarrow> enqueued e = [] \<and> dequeued e = []"
  by (cases pc) (auto split: if_splits)

lemma wait_finished_step_events:
  "wait_finished_step q pc = Some (q', pc', e) \<Longrightarrow> enqueued e = [] \<and> dequeued e = []"
  by (cases pc) (auto simp: wf_phase1_def wf_phase2_def split: if_splits option.splits)

lemma thread_step_call:
  assumes "queue_inv q" "items_nonnull q" "call_inv t0 t ev"
    and "thread_step q t = Some (q', t', e)"
  shows "call_inv t0 t' (ev @ e)"
proof (cases t)
  case (Put pc)
  with assms(3) obtain item where t0: "t0 = Put (Put_Start item)"
    by (cases "(t0, t, ev)" rule: call_inv.cases) auto
  from Put assms(4) obtain pc' where "put_step q pc = Some (q', pc', e)" "t' = Put pc'"
    by auto
  with put_step_call[of item pc ev q q' pc' e] assms(3) Put t0 show ?thesis by simp
next
  case (Get pc)
  with assms(3) have t0: "t0 = Get Get_Start"
    by (cases "(t0, t, ev)" rule: call_inv.cases) auto
  from Get assms(4) obtain pc' where "get_step q pc = Some (q', pc', e)" "t' = Get pc'"
    by auto
  with get_step_call[OF assms(1,2), of pc ev q' pc' e] assms(3) Get t0 show ?thesis by simp
next
  case (Signal_Finished pc)
  with assms(3) have t0: "t0 = Signal_Finished SF_Start"
    by (cases "(t0, t, ev)" rule: call_inv.cases) auto
  from Signal_Finished assms(4) obtain pc' where
    "signal_finished_step q pc = Some (q', pc', e)" "t' = Signal_Finished pc'" by auto
  with signal_finished_step_events[of q pc q' pc' e] assms(3) Signal_Finished t0
  show ?thesis by simp
next
  case (Wait_Finished pc)
  with assms(3) have t0: "t0 = Wait_Finished WF_Start"
    by (cases "(t0, t, ev)" rule: call_inv.cases) auto
  from Wait_Finished assms(4) obtain pc' where
    "wait_finished_step q pc = Some (q', pc', e)" "t' = Wait_Finished pc'" by auto
  with wait_finished_step_events[of q pc q' pc' e] assms(3) Wait_Finished t0
  show ?thesis by simp
qed

lemma sys_step_call:
  assumes "sys_inv (q, ts)" "j < length ts" "call_inv t0 (ts ! j) (events_of j tr0)"
    and "sys_step i (q, ts) = ((q', ts'), e)"
  shows "length ts' = length ts \<and> call_inv t0 (ts' ! j) (events_of j (tr0 @ e))"
proof (cases "i < length ts")
  case False
  with assms show ?thesis by (simp add: sys_step_def)
next
  case True
  show ?thesis
  proof (cases "thread_step q (ts ! i)")
    case None
    with assms True show ?thesis by (simp add: sys_step_def)
  next
    case (Some r)
    obtain q1 t1 e1 where r: "r = (q1, t1, e1)" by (cases r)
    have *: "q' = q1" "ts' = ts[i := t1]" "e = map (Pair i) e1"
      using assms(4) True Some r by (simp_all add: sys_step_def)
    have qi: "queue_inv q" "items_nonnull q" using assms(1) by (simp_all add: sys_inv_def)
    show ?thesis
    proof (cases "i = j")
      case True
      with thread_step_call[OF qi assms(3)] Some r * assms(2) show ?thesis by simp
    next
      case False
      with * assms(2,3) show ?thesis by simp
    qed
  qed
qed

lemma run_call:
  assumes "sys_inv (q, ts)" "j < length ts" "call_inv t0 (ts ! j) (events_of j tr0)"
    and "run sched (q, ts) = ((q', ts'), tr)"
  shows "length ts' = length ts \<and> call_inv t0 (ts' ! j) (events_of j (tr0 @ tr))"
  using assms
proof (induction sched arbitrary: q ts tr0 tr)
  case Nil
  then show ?case by simp
next
  case (Cons i sched)
  obtain q1 ts1 e1 where s1: "sys_step i (q, ts) = ((q1, ts1), e1)"
    by (metis surj_pair)
  obtain tr1 where r: "run sched (q1, ts1) = ((q', ts'), tr1)" and tr: "tr = e1 @ tr1"
    using Cons.prems(4) s1 by (auto split: prod.splits)
  have inv1: "sys_inv (q1, ts1)" using sys_step_inv[OF Cons.prems(1) s1] .
  from sys_step_call[OF Cons.prems(1,2,3) s1]
  have l1: "length ts1 = length ts" and c1: "call_inv t0 (ts1 ! j) (events_of j (tr0 @ e1))"
    by simp_all
  have j1: "j < length ts1" using l1 Cons.prems(2) by simp
  from Cons.IH[OF inv1 j1 c1 r] l1 show ?case unfolding tr by simp
qed

lemma starting_call: "starting t \<Longrightarrow> call_inv t t []"
  by (induction t rule: starting.induct) simp_all

lemma sys_step_length: "sys_step i (q, ts) = ((q', ts'), e) \<Longrightarrow> length ts' = length ts"
  by (auto simp: sys_step_def split: if_splits option.splits)

lemma run_length: "run sched (q, ts) = ((q', ts'), tr) \<Longrightarrow> length ts' = length ts"
proof (induction sched arbitrary: q ts tr)
  case Nil
  then show ?case by simp
next
  case (Cons i sched)
  obtain q1 ts1 e1 where s1: "sys_step i (q, ts) = ((q1, ts1), e1)"
    by (metis surj_pair)
  obtain tr1 where r: "run sched (q1, ts1) = ((q', ts'), tr1)"
    using Cons.prems s1 by (auto split: prod.splits)
  from Cons.IH[OF r] sys_step_length[OF s1] show ?case by simp
qed

lemma put_step_flags:
  assumes "put_step q pc = Some (q', pc', ev)"
  shows "initialized q' = initialized q \<and> (finished_flag q \<longrightarrow> finished_flag q')"
proof (cases pc)
  case (Put_Start xo)
  with assms show ?thesis by (cases xo) (auto split: if_splits)
qed (use assms in \<open>auto simp: put_loop_def enqueue_def split: if_splits option.splits\<close>)

lemma get_step_flags:
  assumes "get_step q pc = Some (q', pc', ev)"
  shows "initialized q' = initialized q \<and> (finished_flag q \<longrightarrow> finished_flag q')"
  using assms
  by (cases pc) (auto simp: get_loop_def dequeue_def split: if_splits option.splits)

lemma signal_finished_step_flags:
  assumes "signal_finished_step q pc = Some (q', pc', ev)"
  shows "initialized q' = initialized q \<and> (finished_flag q \<longrightarrow> finished_flag q')"
  using assms by (cases pc) (auto split: if_splits)

lemma wait_finished_step_flags:
  assumes "wait_finished_step q pc = Some (q', pc', ev)"
  shows "initialized q' = initialized q \<and> (finished_flag q \<longrightarrow> finished_flag q')"
  using assms
  by (cases pc) (auto simp: wf_phase1_def wf_phase2_def split: if_splits option.splits)

lemma thread_step_flags:
  assumes "thread_step q t = Some (q', t', ev)"
  shows "initialized q' = initialized q \<and> (finished_flag q \<longrightarrow> finished_flag q')"
  using assms put_step_flags get_step_flags signal_finished_step_flags wait_finished_step_flags
  by (cases t) fastforce+

lemma ctx_step_ok_refl: "ctx_step_ok ctx ctx"
  by (auto simp: ctx_step_ok_def split: option.splits)

lemma ctx_step_ok_set_queue:
  assumes "queue (g_plugin_context st) = Some q"
    "initialized q' = initialized q" "finished_flag q \<longrightarrow> finished_flag q'"
  shows "ctx_step_ok (g_plugin_context st) (g_plugin_context (set_queue q' st))"
  using assms by (simp add: ctx_step_ok_def set_queue_def wired_def)

lemma ctx_do_free [simp]: "g_plugin_context (do_free a st) = g_plugin_context st"
  by (simp add: do_free_def)

lemma handle_end_ctx:
  assumes "handle_end call st a s = Some (st', ev)"
  shows "g_plugin_context st' = (g_plugin_context st)\<lparr>finished := True\<rparr>"
  using assms
  by (auto simp: handle_end_def set_finished_def Let_def split: option.splits prod.splits)

lemma deliver_ctx:
  assumes "deliver call st a b s = Some (st', ev)"
  shows "g_plugin_context st' = g_plugin_context st"
  using assms
  by (auto simp: deliver_def Let_def split: option.splits prod.splits if_splits)

lemma handle_payload_ctx:
  assumes "handle_payload call st p a s = Some (st', ev)"
  shows "g_plugin_context st' = g_plugin_context st"
  using assms
  by (auto simp: handle_payload_def Let_def dest: deliver_ctx
           split: option.splits prod.splits transform_result.splits)


lemma worker_step_ctx:
  assumes "worker_step call st pc = Some (st', pc', ev)"
  shows "ctx_step_ok (g_plugin_context st) (g_plugin_context st')"
proof (cases pc)
  case W_Entry
  with assms show ?thesis by (auto simp: ctx_step_ok_refl split: if_splits)
next
  case (W_Get gpc)
  show ?thesis
  proof (cases "queue (g_plugin_context st)")
    case None
    with assms W_Get show ?thesis by (auto simp: ctx_step_ok_refl split: if_splits)
  next
    case (Some q)
    with assms W_Get obtain q' gpc' e where g: "get_step q gpc = Some (q', gpc', e)"
      and st': "st' = set_queue q' st"
      by (auto split: option.splits)
    show ?thesis unfolding st'
      using ctx_step_ok_set_queue[OF Some] get_step_flags[OF g] by blast
  qed
next
  case (W_Item a)
  show ?thesis
  proof (cases "deref (heap st) a")
    case None
    with assms W_Item show ?thesis by (auto simp: ctx_step_ok_refl)
  next
    case (Some s)
    show ?thesis
    proof (cases "is_end (Some s)")
      case True
      with assms W_Item Some obtain h where "handle_end call st a s = Some (st', h)"
        by (auto split: prod.splits)
      from handle_end_ctx[OF this] show ?thesis
        by (auto simp: ctx_step_ok_def wired_def split: option.splits)
    next
      case False
      with assms W_Item Some show ?thesis
        by (auto simp: ctx_step_ok_refl dest: handle_payload_ctx split: option.splits)
    qed
  qed
next
  case (W_Signal spc)
  show ?thesis
  proof (cases "queue (g_plugin_context st)")
    case None
    with assms W_Signal show ?thesis by (auto simp: ctx_step_ok_refl split: if_splits)
  next
    case (Some q)
    with assms W_Signal obtain q' spc' e where g: "signal_finished_step q spc = Some (q', spc', e)"
      and st': "st' = set_queue q' st"
      by (auto split: option.splits)
    show ?thesis unfolding st'
      using ctx_step_ok_set_queue[OF Some] signal_finished_step_flags[OF g] by blast
  qed
next
  case W_Exit
  with assms show ?thesis by simp
next
  case W_Crash
  with assms show ?thesis by simp
qed

lemma after_put_ctx:
  assumes "after_put dup pc st = (st', pw, ev)"
  shows "g_plugin_context st' = g_plugin_context st"
  using assms by (induction dup pc st rule: after_put.induct) auto

lemma place_work_step_ctx:
  assumes "place_work_step st pc = Some (st', pc', ev)"
  shows "ctx_step_ok (g_plugin_context st) (g_plugin_context st')"
proof (cases pc)
  case (PW_Start so)
  with assms show ?thesis
    by (cases so) (auto simp: ctx_step_ok_refl Let_def split: if_splits prod.splits)
next
  case (PW_Put dup ppc)
  show ?thesis
  proof (cases "queue (g_plugin_context st)")
    case None
    with assms PW_Put show ?thesis
      by (cases ppc) (auto simp: ctx_step_ok_refl)
  next
    case (Some q)
    with assms PW_Put obtain q' ppc' e e' where g: "put_step q ppc = Some (q', ppc', e)"
      and a: "after_put dup ppc' (set_queue q' st) = (st', pc', e')"
      by (auto split: option.splits prod.splits)
    show ?thesis unfolding after_put_ctx[OF a]
      using ctx_step_ok_set_queue[OF Some] put_step_flags[OF g] by blast
  qed
next
  case (PW_Return r)
  with assms show ?thesis by simp
qed

lemma plugin_attach_ctx:
  "ctx_step_ok ctx (fst (plugin_attach nxt ctx))"
  by (auto simp: plugin_attach_def ctx_step_ok_def wired_def split: option.splits)

lemma sthread_step_ctx:
  assumes "sthread_step call st t = Some (st', t', ev)"
  shows "ctx_step_ok (g_plugin_context st) (g_plugin_context st')"
proof (cases t)
  case (Worker pc)
  with assms show ?thesis by (auto dest: worker_step_ctx)
next
  case (Place_Work pc)
  with assms show ?thesis by (auto dest: place_work_step_ctx)
next
  case (Attach pc)
  show ?thesis
  proof (cases pc)
    case (Attach_Start nxt)
    with assms Attach have "g_plugin_context st' = fst (plugin_attach nxt (g_plugin_context st))"
      by (auto simp: Let_def split: prod.splits)
    then show ?thesis using plugin_attach_ctx[of "g_plugin_context st" nxt] by simp
  next
    case Attach_Return
    with assms Attach show ?thesis by simp
  qed
next
  case (Queue_Op qt)
  show ?thesis
  proof (cases "queue (g_plugin_context st)")
    case None
    with assms Queue_Op show ?thesis by simp
  next
    case (Some q)
    with assms Queue_Op obtain q' qt' e where g: "thread_step q qt = Some (q', qt', e)"
      and st': "st' = set_queue q' st"
      by auto
    show ?thesis unfolding st'
      using ctx_step_ok_set_queue[OF Some] thread_step_flags[OF g] by blast
  qed
qed


lemma end_handling_append:
  "end_handling (xs @ ys) =
     (case end_handling xs of None \<Rightarrow> end_handling ys | Some (a, r) \<Rightarrow> Some (a, r @ ys))"
  by (induction xs rule: end_handling.induct) auto

lemma end_handling_None_iff: "end_handling ev = None \<longleftrightarrow> filter is_got_end ev = []"
  by (induction ev rule: end_handling.induct) auto

lemma end_handling_queue_events [simp]: "end_handling (map Queue_Event e) = None"
  by (induction e) auto

lemma filter_queue_events [simp]:
  "filter is_forward_end (map Queue_Event e) = []"
  "filter is_got_end (map Queue_Event e) = []"
  "filter (\<lambda>e. \<not> is_queue_event e) (map Queue_Event e) = []"
  "Transform s \<notin> set (map Queue_Event e)"
  by (induction e) auto

lemma before_end_queue_events:
  "before_end ev \<Longrightarrow> before_end (ev @ map Queue_Event e)"
  by (auto simp: before_end_def end_handling_append)

lemma handled_end_queue_events:
  assumes "handled_end ctx ev" "finished ctx' = finished ctx" "wired ctx' = wired ctx"
  shows "handled_end ctx' (ev @ map Queue_Event e)"
proof (cases "end_handling ev")
  case None
  with assms(1) show ?thesis by (simp add: handled_end_def)
next
  case (Some r)
  obtain a rest where r: "r = (a, rest)" by (cases r)
  show ?thesis
    using assms(1) Some r unfolding handled_end_def assms(2,3)
    by (auto simp: end_handling_append)
qed

lemma handled_end_stable:
  assumes "handled_end ctx ev" "ctx_step_ok ctx ctx'"
  shows "handled_end ctx' ev"
proof -
  have f: "finished ctx" using assms(1) by (simp add: handled_end_def)
  then have "finished ctx'" "wired ctx' = wired ctx"
    using assms(2) by (simp_all add: ctx_step_ok_def)
  with assms(1) show ?thesis
    by (cases "end_handling ev") (auto simp: handled_end_def)
qed

lemma queue_finished_stable:
  assumes "queue_finished ctx" "ctx_step_ok ctx ctx'"
  shows "queue_finished ctx'"
  using assms by (auto simp: queue_finished_def ctx_step_ok_def split: option.splits)

lemma ctx_step_ok_entry:
  assumes "ctx_step_ok ctx ctx'"
  shows "(queue ctx' = None \<or> process_function ctx' = None) \<longleftrightarrow>
         (queue ctx = None \<or> process_function ctx = None)"
  using assms by (auto simp: ctx_step_ok_def split: option.splits)

lemma worker_inv_stable:
  assumes "worker_inv ctx pc ev" "ctx_step_ok ctx ctx'"
  shows "worker_inv ctx' pc ev"
proof (cases pc)
  case W_Exit
  with assms show ?thesis
    using ctx_step_ok_entry[OF assms(2)] handled_end_stable[OF _ assms(2)]
      queue_finished_stable[OF _ assms(2)]
    by auto
qed (use assms in \<open>auto intro: handled_end_stable queue_finished_stable\<close>)

lemma wired_updates [simp]:
  "wired (ctx\<lparr>finished := b\<rparr>) = wired ctx" "wired (ctx\<lparr>queue := q\<rparr>) = wired ctx"
  by (simp_all add: wired_def)

lemma handle_end_events:
  assumes "handle_end call st a s = Some (st', h)"
  shows "disposal (wired (g_plugin_context st) \<noteq> None) a h"
    and "filter is_got_end h = []"
    and "length (filter is_forward_end h) = (if wired (g_plugin_context st) = None then 0 else 1)"
    and "Transform x \<notin> set h"
    and "filter (\<lambda>e. \<not> is_queue_event e) h = h"
  using assms
  by (auto simp: handle_end_def Let_def split: option.splits prod.splits)

lemma deliver_events:
  assumes "deliver call st a b s = Some (st', h)"
  shows "end_handling h = None" "filter is_forward_end h = []" "Transform x \<notin> set h"
  using assms
  by (auto simp: deliver_def Let_def split: option.splits prod.splits if_splits)

lemma handle_payload_events:
  assumes "handle_payload call st p a s = Some (st', h)" "s \<noteq> END_SENTINEL"
  shows "before_end h"
  using assms
  by (auto simp: handle_payload_def before_end_def Let_def dest: deliver_events
           split: option.splits prod.splits transform_result.splits)

lemma before_end_append:
  "before_end xs \<Longrightarrow> before_end ys \<Longrightarrow> before_end (xs @ ys)"
  by (auto simp: before_end_def end_handling_append)

lemma worker_step_inv:
  assumes "worker_inv (g_plugin_context st) pc ev"
    and "worker_step call st pc = Some (st', pc', e)"
  shows "worker_inv (g_plugin_context st') pc' (ev @ e)"
proof (cases pc)
  case W_Entry
  with assms show ?thesis by (auto simp: before_end_def split: if_splits)
next
  case (W_Get gpc)
  show ?thesis
  proof (cases "queue (g_plugin_context st)")
    case None
    with assms W_Get show ?thesis by (auto split: if_splits)
  next
    case (Some q)
    with assms W_Get obtain q' gpc' eq where "get_step q gpc = Some (q', gpc', eq)"
      and *: "pc' = after_get gpc'" "e = map Queue_Event eq"
      by (auto split: option.splits)
    have "before_end (ev @ e)"
      using assms(1) W_Get * by (simp add: before_end_queue_events)
    then show ?thesis unfolding *(1)
      by (induction gpc' rule: after_get.induct) simp_all
  qed
next
  case (W_Item a)
  show ?thesis
  proof (cases "deref (heap st) a")
    case None
    with assms W_Item show ?thesis by auto
  next
    case (Some s)
    have be: "before_end ev" using assms(1) W_Item by simp
    show ?thesis
    proof (cases "is_end (Some s)")
      case True
      then have s: "s = END_SENTINEL" by (simp add: is_end_def)
      from True assms W_Item Some obtain h where h: "handle_end call st a s = Some (st', h)"
        and *: "pc' = W_Signal SF_Start" "e = Got a s # h"
        by (auto split: prod.splits)
      note ctx' = handle_end_ctx[OF h]
      note hev = handle_end_events[OF h]
      have "end_handling (ev @ e) = Some (a, h)"
        using be s * by (simp add: before_end_def end_handling_append)
      moreover have "length (filter is_got_end (ev @ e)) = 1"
        using be s * hev(2) by (simp add: before_end_def end_handling_None_iff)
      moreover have "length (filter is_forward_end (ev @ e)) =
          (if wired (g_plugin_context st') = None then 0 else 1)"
        using be * hev(3) ctx' by (simp add: before_end_def)
      moreover have "Transform END_SENTINEL \<notin> set (ev @ e)"
        using be * hev(4) by (simp add: before_end_def)
      ultimately have "handled_end (g_plugin_context st') (ev @ e)"
        using hev(1,5) ctx' by (simp add: handled_end_def)
      then show ?thesis using * by simp
    next
      case False
      then have s: "s \<noteq> END_SENTINEL" by (simp add: is_end_def)
      show ?thesis
      proof (cases "process_function (g_plugin_context st)")
        case None
        have "before_end [Got a s]" using s by (simp add: before_end_def)
        with be have "before_end (ev @ [Got a s])" by (rule before_end_append)
        with None False assms W_Item Some show ?thesis by auto
      next
        case (Some p)
        with False assms W_Item \<open>deref (heap st) a = Some s\<close>
        obtain h where hp: "handle_payload call st p a s = Some (st', h)"
          and *: "pc' = W_Get Get_Start" "e = Got a s # h" by auto
        have "before_end (Got a s # h)"
          using handle_payload_events[OF hp s] s
          by (simp add: before_end_def)
        then show ?thesis using be * by (simp add: before_end_append)
      qed
    qed
  qed
next
  case (W_Signal spc)
  have he: "handled_end (g_plugin_context st) ev" using assms(1) W_Signal by simp
  show ?thesis
  proof (cases "queue (g_plugin_context st)")
    case None
    with assms W_Signal show ?thesis
      by (auto simp: queue_finished_def split: if_splits)
  next
    case (Some q)
    with assms W_Signal obtain q' spc' eq where g: "signal_finished_step q spc = Some (q', spc', eq)"
      and *: "pc' = after_signal spc'" "e = map Queue_Event eq" "st' = set_queue q' st"
      by (auto split: option.splits)
    have he': "handled_end (g_plugin_context st') (ev @ e)"
      unfolding *(2,3) by (rule handled_end_queue_events[OF he]) (simp_all add: set_queue_def)
    have qf: "queue_finished (g_plugin_context st')"
      if "spc' \<noteq> SF_Start" "spc' \<noteq> SF_Lock"
    proof (cases "spc = SF_Start \<or> spc = SF_Lock")
      case True
      with g that show ?thesis unfolding *(3)
        by (auto simp: queue_finished_def set_queue_def split: if_splits)
    next
      case False
      then have "queue_finished (g_plugin_context st)" using assms(1) W_Signal by simp
      then show ?thesis
        using queue_finished_stable worker_step_ctx[OF assms(2)] by blast
    qed
    show ?thesis unfolding *(1) using he' qf
      by (cases spc') simp_all
  qed
next
  case W_Exit
  with assms show ?thesis by simp
next
  case W_Crash
  with assms show ?thesis by simp
qed


lemma stage_step_worker_inv:
  assumes "w < length ts" "ts ! w = Worker pc"
    and "worker_inv (g_plugin_context st) pc (events_of w tr0)"
    and "stage_step call i (st, ts) = ((st', ts'), e)"
  shows "length ts' = length ts \<and>
         ctx_step_ok (g_plugin_context st) (g_plugin_context st') \<and>
         (\<exists>pc'. ts' ! w = Worker pc' \<and>
                worker_inv (g_plugin_context st') pc' (events_of w (tr0 @ e)))"
proof (cases "i < length ts")
  case False
  with assms show ?thesis by (simp add: stage_step_def ctx_step_ok_refl)
next
  case True
  show ?thesis
  proof (cases "sthread_step call st (ts ! i)")
    case None
    with assms True show ?thesis by (simp add: stage_step_def ctx_step_ok_refl)
  next
    case (Some r)
    obtain st1 t1 e1 where r: "r = (st1, t1, e1)" by (cases r)
    have *: "st' = st1" "ts' = ts[i := t1]" "e = map (Pair i) e1"
      using assms(4) True Some r by (simp_all add: stage_step_def)
    have ok: "ctx_step_ok (g_plugin_context st) (g_plugin_context st')"
      using sthread_step_ctx Some r *(1) by metis
    show ?thesis
    proof (cases "i = w")
      case True
      with Some r assms(2) obtain pc' where w: "worker_step call st pc = Some (st1, pc', e1)"
        and t1: "t1 = Worker pc'" by auto
      have "worker_inv (g_plugin_context st') pc' (events_of w (tr0 @ e))"
        using worker_step_inv[OF assms(3) w] True * by simp
      with ok * t1 True assms(1) show ?thesis by simp
    next
      case False
      then have "events_of w (tr0 @ e) = events_of w tr0" using * by simp
      moreover have "ts' ! w = Worker pc" using False * assms(2) by simp
      ultimately show ?thesis
        using worker_inv_stable[OF assms(3) ok] ok * by simp
    qed
  qed
qed

lemma ctx_step_ok_trans:
  "ctx_step_ok a b \<Longrightarrow> ctx_step_ok b c \<Longrightarrow> ctx_step_ok a c"
  by (auto simp: ctx_step_ok_def split: option.splits)

lemma stage_run_worker_inv:
  assumes "w < length ts" "ts ! w = Worker pc"
    and "worker_inv (g_plugin_context st) pc (events_of w tr0)"
    and "stage_run call sched (st, ts) = ((st', ts'), tr)"
  shows "length ts' = length ts \<and>
         ctx_step_ok (g_plugin_context st) (g_plugin_context st') \<and>
         (\<exists>pc'. ts' ! w = Worker pc' \<and>
                worker_inv (g_plugin_context st') pc' (events_of w (tr0 @ tr)))"
  using assms
proof (induction sched arbitrary: st ts pc tr0 tr)
  case Nil
  then show ?case by (simp add: ctx_step_ok_refl)
next
  case (Cons i sched)
  obtain st1 ts1 e1 where s1: "stage_step call i (st, ts) = ((st1, ts1), e1)"
    by (metis surj_pair)
  obtain tr1 where r: "stage_run call sched (st1, ts1) = ((st', ts'), tr1)"
    and tr: "tr = e1 @ tr1"
    using Cons.prems(4) s1 by (auto split: prod.splits)
  from stage_step_worker_inv[OF Cons.prems(1,2,3) s1]
  obtain pc1 where l1: "length ts1 = length ts"
    and ok1: "ctx_step_ok (g_plugin_context st) (g_plugin_context st1)"
    and w1: "ts1 ! w = Worker pc1"
    and i1: "worker_inv (g_plugin_context st1) pc1 (events_of w (tr0 @ e1))"
    by blast
  have w': "w < length ts1" using l1 Cons.prems(1) by simp
  from Cons.IH[OF w' w1 i1 r] l1 ok1 show ?case
    unfolding tr by (auto intro: ctx_step_ok_trans)
qed

lemma before_end_facts:
  assumes "before_end ev"
  shows "Transform END_SENTINEL \<notin> set ev" "filter is_forward_end ev = []"
    "filter is_got_end ev = []"
  using assms by (simp_all add: before_end_def end_handling_None_iff)

lemma handled_end_facts:
  assumes "handled_end ctx ev"
  shows "Transform END_SENTINEL \<notin> set ev" "length (filter is_forward_end ev) \<le> 1"
    "length (filter is_got_end ev) = 1" "ev \<noteq> []"
  using assms by (auto simp: handled_end_def)

lemma worker_inv_facts:
  assumes "worker_inv ctx pc ev"
  shows "Transform END_SENTINEL \<notin> set ev"
    and "length (filter is_forward_end ev) \<le> 1"
    and "length (filter is_got_end ev) \<le> 1"
    and "filter is_got_end ev \<noteq> [] \<longrightarrow> handled_end ctx ev"
    and "pc = W_Exit \<and> ev \<noteq> [] \<longrightarrow> handled_end ctx ev \<and> queue_finished ctx"
proof -
  have "ev = [] \<or> before_end ev \<or> handled_end ctx ev"
    using assms by (cases pc) auto
  then show "Transform END_SENTINEL \<notin> set ev"
    and "length (filter is_forward_end ev) \<le> 1"
    and "length (filter is_got_end ev) \<le> 1"
    and "filter is_got_end ev \<noteq> [] \<longrightarrow> handled_end ctx ev"
    using before_end_facts[of ev] handled_end_facts[of ctx ev] by auto
  show "pc = W_Exit \<and> ev \<noteq> [] \<longrightarrow> handled_end ctx ev \<and> queue_finished ctx"
    using assms by auto
qed

lemma attach_initialized_stage:
  assumes "initialized_stage ctx"
  shows "plugin_attach nxt ctx = (ctx\<lparr>next_place_work := nxt, attached := True\<rparr>, [])"
  using assms by (simp add: initialized_stage_def plugin_attach_def)

lemma attach_loop_loaded:
  assumes "0 \<le> i" "length ctxs = N"
  shows "attach_loop (map loaded_handle [0 ..< N]) (int N) i ctxs =
         Inr (map (\<lambda>j. if nat i \<le> j \<and> Suc j < N
                        then fst (plugin_attach (Some (Suc j)) (ctxs ! j)) else ctxs ! j)
                [0 ..< N])"
  using assms
proof (induction "map loaded_handle [0 ..< N]" "int N" i ctxs rule: attach_loop.induct)
  case (1 i ctxs)
  show ?case
  proof (cases "i < int N - 1")
    case False
    then have "\<And>j. \<not> (nat i \<le> j \<and> Suc j < N)" using 1(2) by auto
    then have "map (\<lambda>j. if nat i \<le> j \<and> Suc j < N
                        then fst (plugin_attach (Some (Suc j)) (ctxs ! j)) else ctxs ! j)
                [0 ..< N] = map (\<lambda>j. ctxs ! j) [0 ..< N]" by auto
    also have "\<dots> = ctxs" using map_nth[of ctxs] 1(3) by simp
    finally show ?thesis using False by (simp add: attach_loop.simps)
  next
    case True
    let ?k = "nat i"
    have k: "?k < N" "Suc ?k < N" "nat (i + 1) = Suc ?k" using True 1(2) by auto
    have ha: "h_attach (map loaded_handle [0 ..< N] ! ?k) = Some ?k"
      using k by (simp add: loaded_handle_def)
    have hp: "h_place_work (map loaded_handle [0 ..< N] ! nat (i + 1)) = Some (Suc ?k)"
      using k by (simp add: loaded_handle_def)
    let ?c = "ctxs[?k := fst (plugin_attach (Some (Suc ?k)) (ctxs ! ?k))]"
    have len: "length ?c = N" using 1(3) by simp
    have IH: "attach_loop (map loaded_handle [0 ..< N]) (int N) (i + 1) ?c =
         Inr (map (\<lambda>j. if nat (i + 1) \<le> j \<and> Suc j < N
                        then fst (plugin_attach (Some (Suc j)) (?c ! j)) else ?c ! j)
                [0 ..< N])"
      using 1(1)[OF True ha hp _ len] 1(2) by simp
    have "(if nat (i + 1) \<le> j \<and> Suc j < N
                        then fst (plugin_attach (Some (Suc j)) (?c ! j)) else ?c ! j) =
          (if nat i \<le> j \<and> Suc j < N
                        then fst (plugin_attach (Some (Suc j)) (ctxs ! j)) else ctxs ! j)"
      if "j < N" for j
      using that k 1(3) by (cases "j = ?k") auto
    then have "map (\<lambda>j. if nat (i + 1) \<le> j \<and> Suc j < N
                        then fst (plugin_attach (Some (Suc j)) (?c ! j)) else ?c ! j) [0 ..< N]
             = map (\<lambda>j. if nat i \<le> j \<and> Suc j < N
                        then fst (plugin_attach (Some (Suc j)) (ctxs ! j)) else ctxs ! j) [0 ..< N]"
      by simp
    with IH True ha hp show ?thesis
      by (subst attach_loop.simps) (simp add: k(3))
  qed
qed

lemma stage4_loaded:
  assumes "0 < N" "length ctxs = N" "list_all initialized_stage ctxs"
  shows "stage4_attach_plugins (Some (map loaded_handle [0 ..< N])) (int N) ctxs =
         Inr (map (\<lambda>j. if Suc j < N
                        then (ctxs ! j)\<lparr>next_place_work := Some (Suc j), attached := True\<rparr>
                        else ctxs ! j)
                [0 ..< N])"
proof -
  have a: "fst (plugin_attach (Some (Suc j)) (ctxs ! j)) =
           (ctxs ! j)\<lparr>next_place_work := Some (Suc j), attached := True\<rparr>" if "j < N" for j
    using attach_initialized_stage[of "ctxs ! j"] assms(2,3) that
    by (simp add: list_all_length)
  have m: "map (\<lambda>j. if nat 0 \<le> j \<and> Suc j < N
                        then fst (plugin_attach (Some (Suc j)) (ctxs ! j)) else ctxs ! j)
                [0 ..< N] =
        map (\<lambda>j. if Suc j < N
                        then (ctxs ! j)\<lparr>next_place_work := Some (Suc j), attached := True\<rparr>
                        else ctxs ! j)
                [0 ..< N]"
    using a by simp
  show ?thesis
  proof (cases "N = 1")
    case True
    then have "ctxs = [ctxs ! 0]" using assms(2) by (cases ctxs) auto
    with True show ?thesis by (simp add: stage4_attach_plugins_def)
  next
    case False
    with assms(1) have "int N \<noteq> 0" "int N \<noteq> 1" "\<not> int N < 0" by auto
    then show ?thesis
      using attach_loop_loaded[of 0 ctxs N] assms(2) m
      by (simp add: stage4_attach_plugins_def)
  qed
qed


lemma sthread_step_wired:
  assumes "\<not> is_attach t" "sthread_step call st t = Some (st', t', e)"
  shows "wired (g_plugin_context st') = wired (g_plugin_context st) \<and> \<not> is_attach t'"
proof (cases t)
  case (Worker pc)
  with assms(2) obtain pc' where w: "worker_step call st pc = Some (st', pc', e)"
    and t': "t' = Worker pc'" by auto
  have "wired (g_plugin_context st') = wired (g_plugin_context st)"
  proof (cases pc)
    case (W_Item a)
    show ?thesis
    proof (cases "deref (heap st) a")
      case None
      with w W_Item show ?thesis by auto
    next
      case (Some s)
      with w W_Item show ?thesis
        by (cases "is_end (Some s)")
           (auto dest: handle_end_ctx handle_payload_ctx split: option.splits prod.splits)
    qed
  qed (use w in \<open>auto simp: set_queue_def split: if_splits option.splits\<close>)
  with t' show ?thesis by simp
next
  case (Place_Work pc)
  with assms(2) obtain pc' where w: "place_work_step st pc = Some (st', pc', e)"
    and t': "t' = Place_Work pc'" by auto
  have "wired (g_plugin_context st') = wired (g_plugin_context st)"
  proof (cases pc)
    case (PW_Start so)
    with w show ?thesis by (cases so) (auto simp: Let_def split: if_splits prod.splits)
  next
    case (PW_Put dup ppc)
    show ?thesis
    proof (cases "queue (g_plugin_context st)")
      case None
      with w PW_Put show ?thesis by (cases ppc) auto
    next
      case (Some q)
      with w PW_Put show ?thesis
        by (auto simp: set_queue_def dest!: after_put_ctx split: option.splits prod.splits)
    qed
  next
    case (PW_Return r)
    with w show ?thesis by simp
  qed
  with t' show ?thesis by simp
next
  case (Attach pc)
  with assms(1) show ?thesis by simp
next
  case (Queue_Op qt)
  with assms(2) show ?thesis
    by (auto simp: set_queue_def split: option.splits)
qed

lemma stage_step_wired:
  assumes "\<not> list_ex is_attach ts" "stage_step call i (st, ts) = ((st', ts'), e)"
  shows "wired (g_plugin_context st') = wired (g_plugin_context st) \<and> \<not> list_ex is_attach ts'"
proof (cases "i < length ts")
  case False
  with assms show ?thesis by (simp add: stage_step_def)
next
  case True
  show ?thesis
  proof (cases "sthread_step call st (ts ! i)")
    case None
    with assms True show ?thesis by (simp add: stage_step_def)
  next
    case (Some r)
    obtain st1 t1 e1 where r: "r = (st1, t1, e1)" by (cases r)
    have *: "st' = st1" "ts' = ts[i := t1]"
      using assms(2) True Some r by (simp_all add: stage_step_def)
    have na: "\<not> is_attach (ts ! i)"
      using assms(1) True by (auto simp: list_ex_iff)
    from sthread_step_wired[OF na Some[unfolded r]]
    have "wired (g_plugin_context st1) = wired (g_plugin_context st)" "\<not> is_attach t1"
      by simp_all
    moreover have "\<not> list_ex is_attach (ts[i := t1])"
      using assms(1) \<open>\<not> is_attach t1\<close>
      by (auto simp: list_ex_iff dest!: set_update_subset_insert[THEN subsetD])
    ultimately show ?thesis using * by simp
  qed
qed

lemma stage_run_wired:
  assumes "\<not> list_ex is_attach ts" "stage_run call sched (st, ts) = ((st', ts'), tr)"
  shows "wired (g_plugin_context st') = wired (g_plugin_context st)"
  using assms
proof (induction sched arbitrary: st ts tr)
  case Nil
  then show ?case by simp
next
  case (Cons i sched)
  obtain st1 ts1 e1 where s1: "stage_step call i (st, ts) = ((st1, ts1), e1)"
    by (metis surj_pair)
  obtain tr1 where r: "stage_run call sched (st1, ts1) = ((st', ts'), tr1)"
    using Cons.prems(2) s1 by (auto split: prod.splits)
  from stage_step_wired[OF Cons.prems(1) s1] Cons.IH[OF _ r] show ?case by simp
qed


lemma drained_queue_monitors:
  assumes "drained_queue q"
  shows "drained_queue (q\<lparr>not_full_monitor := m1\<rparr>) \<longleftrightarrow> m_initialized m1"
    "drained_queue (q\<lparr>not_empty_monitor := m2\<rparr>) \<longleftrightarrow> m_initialized m2"
    "drained_queue (q\<lparr>finished_monitor := m3\<rparr>) \<longleftrightarrow> m_initialized m3"
  using assms by (auto simp: drained_queue_def queue_inv_def)

lemma drained_queueD:
  assumes "drained_queue q"
  shows "initialized q" "finished_flag q" "count q = 0" "queue_is_empty q"
    "m_initialized (not_full_monitor q)" "m_initialized (not_empty_monitor q)"
    "m_initialized (finished_monitor q)"
  using assms by (auto simp: drained_queue_def queue_inv_def queue_is_empty_def)

lemma put_step_drained:
  assumes "drained_queue q" "\<not> put_past_checks pc" "put_step q pc = Some (q', pc', ev)"
  shows "drained_queue q' \<and> \<not> put_past_checks pc'"
proof (cases pc)
  case (Put_Start xo)
  with assms drained_queueD[OF assms(1)] show ?thesis by (cases xo) auto
next
  case (Put_Lock x)
  with assms drained_queueD[OF assms(1)] show ?thesis by auto
next
  case Put_Signal
  with assms drained_queueD[OF assms(1)] show ?thesis
    by (auto simp: drained_queue_monitors)
qed (use assms in auto)

lemma get_step_drained:
  assumes "drained_queue q" "get_step q pc = Some (q', pc', ev)"
  shows "drained_queue q'"
    and "get_waiting pc \<Longrightarrow> ev = [] \<and> q' = q \<and> (pc' = Get_Return None \<or> get_waiting pc')"
proof -
  note d = drained_queueD[OF assms(1)]
  have gl: "get_loop q = (q, Get_Return None, [])"
    using d by (simp add: get_loop_def)
  show "drained_queue q'"
    using assms d gl
    by (cases pc) (auto simp: drained_queue_monitors monitor_wait_def split: if_splits)
  show "ev = [] \<and> q' = q \<and> (pc' = Get_Return None \<or> get_waiting pc')" if "get_waiting pc"
    using that assms d gl
    by (cases pc) (auto simp: monitor_wait_def split: if_splits)
qed

lemma signal_finished_step_drained:
  assumes "drained_queue q" "signal_finished_step q pc = Some (q', pc', ev)"
  shows "drained_queue q'"
  using assms drained_queueD[OF assms(1)]
  by (cases pc) (auto simp: drained_queue_monitors split: if_splits)

lemma wait_finished_step_drained:
  assumes "drained_queue q" "wait_finished_step q pc = Some (q', pc', ev)"
  shows "drained_queue q'"
  using assms drained_queueD[OF assms(1)]
  by (cases pc)
     (auto simp: drained_queue_monitors wf_phase1_def wf_phase2_def monitor_wait_def
           split: if_splits)

lemma thread_step_drained:
  assumes "drained_queue q" "quiet_thread (Queue_Op t)" "thread_step q t = Some (q', t', ev)"
  shows "drained_queue q' \<and> quiet_thread (Queue_Op t')"
proof (cases t)
  case (Put pc)
  with assms show ?thesis using put_step_drained[of q pc] by auto
next
  case (Get pc)
  with assms show ?thesis using get_step_drained(1)[of q pc] by auto
next
  case (Signal_Finished pc)
  with assms show ?thesis using signal_finished_step_drained[of q pc] by auto
next
  case (Wait_Finished pc)
  with assms show ?thesis using wait_finished_step_drained[of q pc] by auto
qed

lemma set_queue_same:
  "queue (g_plugin_context st) = Some q \<Longrightarrow> set_queue q st = st"
  by (simp add: set_queue_def)

lemma queue_set_queue [simp]: "queue (g_plugin_context (set_queue q st)) = Some q"
  by (simp add: set_queue_def)

lemma worker_step_drained:
  assumes "queue (g_plugin_context st) = Some q" "drained_queue q" "quiet_thread (Worker pc)"
    and "worker_step call st pc = Some (st', pc', e)"
  shows "st' = st \<and> e = [] \<and> quiet_thread (Worker pc')"
proof -
  from assms(3) obtain g where pc: "pc = W_Get g" and gw: "get_waiting g"
    by (cases pc) auto
  from assms(1,4) pc obtain q' g' eq where gs: "get_step q g = Some (q', g', eq)"
    and *: "st' = set_queue q' st" "pc' = after_get g'" "e = map Queue_Event eq"
    by (auto split: option.splits)
  from get_step_drained(2)[OF assms(2) gs gw]
  have "eq = []" "q' = q" "g' = Get_Return None \<or> get_waiting g'" by simp_all
  then show ?thesis unfolding * using set_queue_same[OF assms(1)]
    by (cases g') auto
qed

lemma place_work_step_drained:
  assumes "queue (g_plugin_context st) = Some q" "drained_queue q" "quiet_thread (Place_Work pc)"
    and "place_work_step st pc = Some (st', pc', e)"
  shows "(\<exists>q'. queue (g_plugin_context st') = Some q' \<and> drained_queue q') \<and>
         quiet_thread (Place_Work pc')"
proof (cases pc)
  case (PW_Start so)
  with assms show ?thesis
    by (cases so) (auto simp: Let_def split: if_splits prod.splits)
next
  case (PW_Put dup ppc)
  with assms(1,4) obtain q' ppc' eq e' where ps: "put_step q ppc = Some (q', ppc', eq)"
    and ap: "after_put dup ppc' (set_queue q' st) = (st', pc', e')"
    by (auto split: option.splits prod.splits)
  have np: "\<not> put_past_checks ppc" using assms(3) PW_Put by simp
  from put_step_drained[OF assms(2) np ps]
  have d': "drained_queue q'" and np': "\<not> put_past_checks ppc'" by simp_all
  have "queue (g_plugin_context st') = Some q'"
    using after_put_ctx[OF ap] by simp
  moreover have "quiet_thread (Place_Work pc')"
    using ap np' by (induction dup ppc' "set_queue q' st" rule: after_put.induct) auto
  ultimately show ?thesis using d' by blast
next
  case (PW_Return r)
  with assms show ?thesis by simp
qed

lemma sthread_step_drained:
  assumes "queue (g_plugin_context st) = Some q" "drained_queue q" "quiet_thread t"
    and "sthread_step call st t = Some (st', t', e)"
  shows "(\<exists>q'. queue (g_plugin_context st') = Some q' \<and> drained_queue q') \<and>
         quiet_thread t' \<and> ((\<exists>pc. t = Worker pc) \<longrightarrow> e = [])"
proof (cases t)
  case (Worker pc)
  with assms(4) obtain pc' where w: "worker_step call st pc = Some (st', pc', e)"
    and t': "t' = Worker pc'" by auto
  from worker_step_drained[OF assms(1,2) assms(3)[unfolded Worker] w] assms(1,2) t'
  show ?thesis by auto
next
  case (Place_Work pc)
  with assms(4) obtain pc' where w: "place_work_step st pc = Some (st', pc', e)"
    and t': "t' = Place_Work pc'" by auto
  from place_work_step_drained[OF assms(1,2) assms(3)[unfolded Place_Work] w] t' Place_Work
  show ?thesis by auto
next
  case (Attach pc)
  with assms show ?thesis
    by (cases pc) (auto simp: Let_def plugin_attach_def split: prod.splits if_splits)
next
  case (Queue_Op qt)
  with assms(1,4) obtain q' qt' eq where ts: "thread_step q qt = Some (q', qt', eq)"
    and *: "st' = set_queue q' st" "t' = Queue_Op qt'"
    by auto
  from thread_step_drained[OF assms(2) assms(3)[unfolded Queue_Op] ts] * Queue_Op
  show ?thesis by auto
qed

lemma stage_step_drained:
  assumes "drained (st, ts)" "stage_step call i (st, ts) = ((st', ts'), e)"
  shows "drained (st', ts')"
    and "w < length ts \<Longrightarrow> ts ! w = Worker pc \<Longrightarrow>
         events_of w e = [] \<and> (\<exists>pc'. ts' ! w = Worker pc')"
proof -
  from assms(1) obtain q where q: "queue (g_plugin_context st) = Some q" "drained_queue q"
    and qt: "list_all quiet_thread ts"
    by (auto simp: drained_def split: option.splits)
  have "drained (st', ts') \<and>
        (w < length ts \<longrightarrow> ts ! w = Worker pc \<longrightarrow>
           events_of w e = [] \<and> (\<exists>pc'. ts' ! w = Worker pc'))"
  proof (cases "i < length ts")
    case False
    with assms show ?thesis by (simp add: stage_step_def)
  next
    case True
    show ?thesis
    proof (cases "sthread_step call st (ts ! i)")
      case None
      with assms True show ?thesis by (simp add: stage_step_def)
    next
      case (Some r)
      obtain st1 t1 e1 where r: "r = (st1, t1, e1)" by (cases r)
      have *: "st' = st1" "ts' = ts[i := t1]" "e = map (Pair i) e1"
        using assms(2) True Some r by (simp_all add: stage_step_def)
      have qi: "quiet_thread (ts ! i)" using qt True by (simp add: list_all_length)
      from sthread_step_drained[OF q qi Some[unfolded r]]
      obtain q' where q': "queue (g_plugin_context st1) = Some q'" "drained_queue q'"
        and qt1: "quiet_thread t1" and we: "(\<exists>pc. ts ! i = Worker pc) \<longrightarrow> e1 = []"
        by blast
      have "list_all quiet_thread (ts[i := t1])"
        using qt qt1 by (auto simp: list_all_iff dest!: set_update_subset_insert[THEN subsetD])
      then have d: "drained (st', ts')" using q' * by (simp add: drained_def)
      have "events_of w e = [] \<and> (\<exists>pc'. ts' ! w = Worker pc')"
        if h: "w < length ts" "ts ! w = Worker pc"
      proof (cases "i = w")
        case True
        with h we have "e1 = []" by auto
        moreover obtain pc' where "t1 = Worker pc'"
          using Some[unfolded r] h(2) True by auto
        ultimately show ?thesis using * True h by simp
      next
        case False
        with * h show ?thesis by simp
      qed
      with d show ?thesis by blast
    qed
  qed
  then show "drained (st', ts')"
    and "w < length ts \<Longrightarrow> ts ! w = Worker pc \<Longrightarrow>
         events_of w e = [] \<and> (\<exists>pc'. ts' ! w = Worker pc')" by blast+
qed

lemma stage_step_length:
  "stage_step call i (st, ts) = ((st', ts'), e) \<Longrightarrow> length ts' = length ts"
  by (auto simp: stage_step_def split: if_splits option.splits)

lemma stage_run_drained:
  assumes "drained (st, ts)" "stage_run call sched (st, ts) = ((st', ts'), tr)"
    and "w < length ts" "ts ! w = Worker pc"
  shows "drained (st', ts') \<and> events_of w tr = [] \<and> (\<exists>pc'. ts' ! w = Worker pc')"
  using assms
proof (induction sched arbitrary: st ts tr pc)
  case Nil
  then show ?case by simp
next
  case (Cons i sched)
  obtain st1 ts1 e1 where s1: "stage_step call i (st, ts) = ((st1, ts1), e1)"
    by (metis surj_pair)
  obtain tr1 where r: "stage_run call sched (st1, ts1) = ((st', ts'), tr1)"
    and tr: "tr = e1 @ tr1"
    using Cons.prems(2) s1 by (auto split: prod.splits)
  note sd = stage_step_drained[OF Cons.prems(1) s1]
  from sd(2)[OF Cons.prems(3,4)] obtain pc1 where e1: "events_of w e1 = []"
    and w1: "ts1 ! w = Worker pc1" by blast
  have l1: "w < length ts1" using stage_step_length[OF s1] Cons.prems(3) by simp
  from Cons.IH[OF sd(1) r l1 w1] e1 show ?case unfolding tr by simp
qed


lemma worker_signal_exits:
  assumes "queue (g_plugin_context st) = Some q" "spc \<noteq> SF_Return"
  shows "fst (snd (exec (worker_step call) 4 st (W_Signal spc))) = W_Exit"
proof -
  have four: "(4::nat) = Suc (Suc (Suc (Suc 0)))" by simp
  show ?thesis
    unfolding four using assms
    by (cases spc; cases "initialized q"; cases "finished_flag q")
       (simp_all add: set_queue_def)
qed

lemma worker_inv_signal:
  "worker_inv ctx (W_Signal spc) ev \<Longrightarrow> spc \<noteq> SF_Return"
  by simp

text \<open>The worker's calls of \<open>next_place_work\<close> and its frees, against its events.\<close>

lemma calls_append: "calls (xs @ ys) = calls xs @ calls ys"
  by (induction xs rule: calls.induct) simp_all

lemma forwards_append: "forwards (xs @ ys) = forwards xs @ forwards ys"
  by (induction xs rule: forwards.induct) simp_all

lemma calls_queue_events [simp]:
  "calls (map Queue_Event e) = []" "forwards (map Queue_Event e) = []"
  by (induction e) simp_all

lemma calls_filter: "calls (filter (\<lambda>e. \<not> is_queue_event e) ev) = calls ev"
  by (induction ev rule: calls.induct) simp_all

lemma sentinel_count_calls:
  "sentinel_count (calls ev) =
     length (filter is_forward_end ev) + count_list (forwards ev) END_SENTINEL"
  by (induction ev rule: calls.induct) (simp_all add: sentinel_count_def)

lemma end_handling_split:
  "end_handling ev = Some (a, rest) \<Longrightarrow>
   \<exists>pre. ev = pre @ Got a END_SENTINEL # rest \<and> end_handling pre = None"
proof (induction ev rule: end_handling.induct)
  case 1
  then show ?case by simp
next
  case (2 b s ev)
  show ?case
  proof (cases "s = END_SENTINEL")
    case True
    with 2(2) have "a = b" "rest = ev" by simp_all
    with True have "Got b s # ev = [] @ Got a END_SENTINEL # rest \<and> end_handling [] = None" by simp
    then show ?thesis by blast
  next
    case False
    with 2 obtain pre where "ev = pre @ Got a END_SENTINEL # rest" "end_handling pre = None"
      by auto
    with False have "Got b s # ev = (Got b s # pre) @ Got a END_SENTINEL # rest \<and>
        end_handling (Got b s # pre) = None" by simp
    then show ?thesis by blast
  qed
qed (auto intro: exI[of _ "_ # _"] simp: Cons_eq_append_conv)

lemma got_end_handling:
  "length (filter is_got_end ev) \<le> 1 \<Longrightarrow> Got a END_SENTINEL \<in> set ev \<Longrightarrow>
   \<exists>rest. end_handling ev = Some (a, rest)"
proof (induction ev rule: end_handling.induct)
  case 1
  then show ?case by simp
next
  case (2 b s ev)
  show ?case
  proof (cases "s = END_SENTINEL")
    case True
    with 2(2) have "filter is_got_end ev = []" by simp
    then have "Got a END_SENTINEL \<notin> set ev"
      by (auto simp: filter_empty_conv)
    with 2(3) True show ?thesis by simp
  next
    case False
    with 2 show ?thesis by auto
  qed
qed auto

lemma handle_end_effects:
  assumes "handle_end (recording call) st a END_SENTINEL = Some (st', h)"
  shows "snd (downstream st') = snd (downstream st) @ calls h"
    and "wired (g_plugin_context st) = None \<longrightarrow> calls h = []"
    and "forwards h = []"
    and "Free a \<in> set h \<longrightarrow> a \<in> set (freed (heap st'))"
  using assms
  by (auto simp: handle_end_def recording_def set_finished_def do_free_def free_def Let_def
           split: option.splits prod.splits)

lemma deliver_effects:
  assumes "deliver (recording call) st a b s = Some (st', h)"
  shows "snd (downstream st') = snd (downstream st) @ calls h"
    and "wired (g_plugin_context st) = None \<longrightarrow> calls h = []"
    and "set (forwards h) \<subseteq> {s}"
  using assms
  by (auto simp: deliver_def recording_def do_free_def Let_def
           split: option.splits prod.splits if_splits)

lemma handle_payload_effects:
  assumes "handle_payload (recording call) st p a s = Some (st', h)" "s \<noteq> END_SENTINEL"
  shows "snd (downstream st') = snd (downstream st) @ calls h"
    and "wired (g_plugin_context st) = None \<longrightarrow> calls h = []"
    and "(\<forall>x. p x \<noteq> New_Buffer END_SENTINEL) \<longrightarrow> END_SENTINEL \<notin> set (forwards h)"
proof -
  show "snd (downstream st') = snd (downstream st) @ calls h"
    using assms(1)
    by (auto simp: handle_payload_def do_free_def Let_def dest!: deliver_effects(1)
             split: transform_result.splits prod.splits)
  show "wired (g_plugin_context st) = None \<longrightarrow> calls h = []"
    using assms(1)
    by (auto simp: handle_payload_def do_free_def Let_def dest!: deliver_effects(2)
             split: transform_result.splits prod.splits)
  show "(\<forall>x. p x \<noteq> New_Buffer END_SENTINEL) \<longrightarrow> END_SENTINEL \<notin> set (forwards h)"
    using assms
    by (auto simp: handle_payload_def do_free_def Let_def dest!: deliver_effects(3)
             split: transform_result.splits prod.splits)
qed

lemma ctx_step_ok_facts:
  assumes "ctx_step_ok ctx ctx'"
  shows "queue ctx \<noteq> None \<Longrightarrow> queue ctx' \<noteq> None"
    and "process_function ctx' = process_function ctx"
    and "wired ctx \<noteq> None \<Longrightarrow> wired ctx' = wired ctx"
  using assms by (auto simp: ctx_step_ok_def wired_def split: option.splits if_splits)

lemma worker_step_wired:
  assumes "worker_step call st pc = Some (st', pc', e)"
  shows "wired (g_plugin_context st') = wired (g_plugin_context st)"
  using sthread_step_wired[of "Worker pc" call st st' "Worker pc'" e] assms by simp

lemma worker_step_effects:
  assumes "worker_inv (g_plugin_context st) pc ev" "effects_inv p st pc ev"
    and "worker_step (recording call) st pc = Some (st', pc', e)"
  shows "effects_inv p st' pc' (ev @ e)"
proof -
  note ok = worker_step_ctx[OF assms(3)]
  note w = worker_step_wired[OF assms(3)]
  from assms(2) have q: "queue (g_plugin_context st) \<noteq> None"
    and pf: "process_function (g_plugin_context st) = Some p"
    and log: "snd (downstream st) = calls ev"
    and nw: "wired (g_plugin_context st) = None \<longrightarrow> calls ev = []"
    and fw: "(\<forall>s. p s \<noteq> New_Buffer END_SENTINEL) \<longrightarrow> END_SENTINEL \<notin> set (forwards ev)"
    by (simp_all add: effects_inv_def)
  have q': "queue (g_plugin_context st') \<noteq> None" using ctx_step_ok_facts(1)[OF ok q] .
  have pf': "process_function (g_plugin_context st') = Some p"
    using ctx_step_ok_facts(2)[OF ok] pf by simp
  obtain qq where qq: "queue (g_plugin_context st) = Some qq" using q by blast
  show ?thesis
  proof (cases pc)
    case W_Entry
    with assms q' pf' show ?thesis
      by (auto simp: effects_inv_def split: if_splits)
  next
    case (W_Get gpc)
    with assms(3) qq obtain q2 gpc' eq where "get_step qq gpc = Some (q2, gpc', eq)"
      and *: "st' = set_queue q2 st" "pc' = after_get gpc'" "e = map Queue_Event eq"
      by (auto split: option.splits)
    have be: "end_handling ev = None" using assms(1) W_Get by (simp add: before_end_def)
    show ?thesis
      using q' pf' log nw fw be w unfolding *
      by (simp add: effects_inv_def calls_append forwards_append end_handling_append
                    set_queue_def)
  next
    case (W_Item a)
    have be: "end_handling ev = None" using assms(1) W_Item by (simp add: before_end_def)
    show ?thesis
    proof (cases "deref (heap st) a")
      case None
      with assms(3) W_Item have "st' = st" "e = []" by auto
      with assms(2) be show ?thesis by (simp add: effects_inv_def)
    next
      case (Some s)
      show ?thesis
      proof (cases "is_end (Some s)")
        case True
        then have s: "s = END_SENTINEL" by (simp add: is_end_def)
        from True assms(3) W_Item Some obtain h
          where h: "handle_end (recording call) st a END_SENTINEL = Some (st', h)"
          and *: "pc' = W_Signal SF_Start" "e = Got a s # h"
          unfolding s by auto
        note eff = handle_end_effects[OF h]
        have eh: "end_handling (ev @ e) = Some (a, h)"
          using be s * by (simp add: end_handling_append)
        show ?thesis
          using q' pf' log nw fw w eff eh *
          by (simp add: effects_inv_def calls_append forwards_append)
      next
        case False
        then have s: "s \<noteq> END_SENTINEL" by (simp add: is_end_def)
        from False assms(3) W_Item Some pf obtain h
          where h: "handle_payload (recording call) st p a s = Some (st', h)"
          and *: "pc' = W_Get Get_Start" "e = Got a s # h"
          by auto
        note eff = handle_payload_effects[OF h s]
        have "before_end h" using handle_payload_events[OF h s] .
        then have eh: "end_handling (ev @ e) = None"
          using be s * by (simp add: end_handling_append before_end_def)
        show ?thesis
          using q' pf' log nw fw w eff eh *
          by (simp add: effects_inv_def calls_append forwards_append)
      qed
    qed
  next
    case (W_Signal spc)
    with assms(3) qq obtain q2 spc' eq where "signal_finished_step qq spc = Some (q2, spc', eq)"
      and *: "st' = set_queue q2 st" "pc' = after_signal spc'" "e = map Queue_Event eq"
      by (auto split: option.splits)
    have nc: "pc' \<noteq> W_Crash" unfolding *(2) by (cases spc') simp_all
    from assms(2) have fr: "case end_handling ev of None \<Rightarrow> True
        | Some (a, rest) \<Rightarrow> Free a \<in> set rest \<longrightarrow> a \<in> set (freed (heap st))"
      by (auto simp: effects_inv_def split: option.splits)
    show ?thesis
      using q' pf' log nw fw w nc fr unfolding *(1,3)
      by (auto simp: effects_inv_def calls_append forwards_append end_handling_append
                    set_queue_def split: option.splits)
  next
    case W_Exit
    with assms show ?thesis by simp
  next
    case W_Crash
    with assms show ?thesis by simp
  qed
qed

lemma after_put_effects:
  assumes "after_put dup pc st = (st', pw, ev)"
  shows "downstream st' = downstream st \<and> set (freed (heap st)) \<subseteq> set (freed (heap st'))"
  using assms
  by (induction dup pc st rule: after_put.induct) (auto simp: do_free_def free_def)

lemma other_step_effects:
  assumes "\<not> is_worker t" "sthread_step call st t = Some (st', t', e)"
  shows "downstream st' = downstream st"
    and "set (freed (heap st)) \<subseteq> set (freed (heap st'))"
    and "\<not> is_worker t'"
proof -
  have "downstream st' = downstream st \<and> set (freed (heap st)) \<subseteq> set (freed (heap st')) \<and>
        \<not> is_worker t'"
  proof (cases t)
    case (Worker pc)
    with assms(1) show ?thesis by simp
  next
    case (Place_Work pc)
    with assms(2) obtain pc' where w: "place_work_step st pc = Some (st', pc', e)"
      and t': "t' = Place_Work pc'" by auto
    have "downstream st' = downstream st \<and> set (freed (heap st)) \<subseteq> set (freed (heap st'))"
    proof (cases pc)
      case (PW_Start so)
      with w show ?thesis
        by (cases so) (auto simp: Let_def alloc_def split: if_splits prod.splits)
    next
      case (PW_Put dup ppc)
      show ?thesis
      proof (cases "queue (g_plugin_context st)")
        case None
        with w PW_Put show ?thesis by (cases ppc) (auto simp: do_free_def free_def)
      next
        case (Some q)
        with w PW_Put obtain q' ppc' eq e' where
          "after_put dup ppc' (set_queue q' st) = (st', pc', e')"
          by (auto split: option.splits prod.splits)
        from after_put_effects[OF this] show ?thesis by (simp add: set_queue_def)
      qed
    next
      case (PW_Return r)
      with w show ?thesis by simp
    qed
    with t' show ?thesis by simp
  next
    case (Attach pc)
    with assms(2) show ?thesis
      by (cases pc) (auto simp: Let_def split: prod.splits)
  next
    case (Queue_Op qt)
    with assms(2) show ?thesis
      by (auto simp: set_queue_def split: option.splits)
  qed
  then show "downstream st' = downstream st"
    and "set (freed (heap st)) \<subseteq> set (freed (heap st'))"
    and "\<not> is_worker t'" by simp_all
qed

lemma effects_inv_other:
  assumes "effects_inv p st pc ev" "\<not> is_worker t"
    and "sthread_step call st t = Some (st', t', e)"
  shows "effects_inv p st' pc ev"
proof -
  note ok = sthread_step_ctx[OF assms(3)]
  note o = other_step_effects[OF assms(2,3)]
  from assms(1) have q: "queue (g_plugin_context st) \<noteq> None"
    and pf: "process_function (g_plugin_context st) = Some p"
    and log: "snd (downstream st) = calls ev"
    and nw: "wired (g_plugin_context st) = None \<longrightarrow> calls ev = []"
    and fw: "(\<forall>s. p s \<noteq> New_Buffer END_SENTINEL) \<longrightarrow> END_SENTINEL \<notin> set (forwards ev)"
    and fr: "case end_handling ev of None \<Rightarrow> True
        | Some (a, rest) \<Rightarrow> pc \<noteq> W_Crash \<and> (Free a \<in> set rest \<longrightarrow> a \<in> set (freed (heap st)))"
    by (simp_all add: effects_inv_def)
  have nw': "wired (g_plugin_context st') = None \<longrightarrow> calls ev = []"
    using nw ctx_step_ok_facts(3)[OF ok] by (cases "wired (g_plugin_context st)") auto
  have fr': "case end_handling ev of None \<Rightarrow> True
        | Some (a, rest) \<Rightarrow> pc \<noteq> W_Crash \<and> (Free a \<in> set rest \<longrightarrow> a \<in> set (freed (heap st')))"
    using fr o(2) by (auto split: option.splits)
  show ?thesis
    using ctx_step_ok_facts(1)[OF ok q] ctx_step_ok_facts(2)[OF ok] pf log o(1) nw' fw fr'
    by (simp add: effects_inv_def)
qed

lemma stage_step_effects:
  assumes "w < length ts" "ts ! w = Worker pc"
    and "\<forall>i < length ts. i \<noteq> w \<longrightarrow> \<not> is_worker (ts ! i)"
    and "worker_inv (g_plugin_context st) pc (events_of w tr0)"
    and "effects_inv p st pc (events_of w tr0)"
    and "stage_step (recording call) i (st, ts) = ((st', ts'), e)"
  shows "length ts' = length ts \<and>
         (\<forall>i < length ts'. i \<noteq> w \<longrightarrow> \<not> is_worker (ts' ! i)) \<and>
         (\<exists>pc'. ts' ! w = Worker pc' \<and>
                worker_inv (g_plugin_context st') pc' (events_of w (tr0 @ e)) \<and>
                effects_inv p st' pc' (events_of w (tr0 @ e)))"
proof -
  from stage_step_worker_inv[OF assms(1,2,4,6)]
  obtain pc' where len: "length ts' = length ts" and w': "ts' ! w = Worker pc'"
    and wi: "worker_inv (g_plugin_context st') pc' (events_of w (tr0 @ e))" by blast
  have "(\<forall>i < length ts'. i \<noteq> w \<longrightarrow> \<not> is_worker (ts' ! i)) \<and>
        effects_inv p st' pc' (events_of w (tr0 @ e))"
  proof (cases "i < length ts")
    case False
    with assms w' show ?thesis by (simp add: stage_step_def)
  next
    case True
    note il = True
    show ?thesis
    proof (cases "sthread_step (recording call) st (ts ! i)")
      case None
      with assms True w' show ?thesis by (simp add: stage_step_def)
    next
      case (Some r)
      obtain st1 t1 e1 where r: "r = (st1, t1, e1)" by (cases r)
      have *: "st' = st1" "ts' = ts[i := t1]" "e = map (Pair i) e1"
        using assms(6) True Some r by (simp_all add: stage_step_def)
      show ?thesis
      proof (cases "i = w")
        case True
        with Some r assms(2) obtain pc1 where
          ws: "worker_step (recording call) st pc = Some (st1, pc1, e1)"
          and t1: "t1 = Worker pc1" by auto
        have "pc1 = pc'" using w' * t1 True assms(1) by simp
        then have "effects_inv p st' pc' (events_of w (tr0 @ e))"
          using worker_step_effects[OF assms(4,5) ws] True * by simp
        moreover have "\<forall>j < length ts'. j \<noteq> w \<longrightarrow> \<not> is_worker (ts' ! j)"
          using assms(3) * True by simp
        ultimately show ?thesis by simp
      next
        case False
        have nwk: "\<not> is_worker (ts ! i)" using assms(3) il False by simp
        note o = other_step_effects[OF nwk Some[unfolded r]]
        have "pc' = pc" using w' * False assms(2) by simp
        then have "effects_inv p st' pc' (events_of w (tr0 @ e))"
          using effects_inv_other[OF assms(5) nwk Some[unfolded r]] * False by simp
        moreover have "\<forall>j < length ts'. j \<noteq> w \<longrightarrow> \<not> is_worker (ts' ! j)"
          using assms(3) * o(3) il by (auto simp: nth_list_update)
        ultimately show ?thesis by simp
      qed
    qed
  qed
  with len w' wi show ?thesis by blast
qed

lemma stage_run_effects:
  assumes "w < length ts" "ts ! w = Worker pc"
    and "\<forall>i < length ts. i \<noteq> w \<longrightarrow> \<not> is_worker (ts ! i)"
    and "worker_inv (g_plugin_context st) pc (events_of w tr0)"
    and "effects_inv p st pc (events_of w tr0)"
    and "stage_run (recording call) sched (st, ts) = ((st', ts'), tr)"
  shows "\<exists>pc'. ts' ! w = Worker pc' \<and>
                worker_inv (g_plugin_context st') pc' (events_of w (tr0 @ tr)) \<and>
                effects_inv p st' pc' (events_of w (tr0 @ tr))"
  using assms
proof (induction sched arbitrary: st ts pc tr0 tr)
  case Nil
  then show ?case by simp
next
  case (Cons i sched)
  obtain st1 ts1 e1 where s1: "stage_step (recording call) i (st, ts) = ((st1, ts1), e1)"
    by (metis surj_pair)
  obtain tr1 where r: "stage_run (recording call) sched (st1, ts1) = ((st', ts'), tr1)"
    and tr: "tr = e1 @ tr1"
    using Cons.prems(6) s1 by (auto split: prod.splits)
  from stage_step_effects[OF Cons.prems(1,2,3,4,5) s1]
  obtain pc1 where l1: "length ts1 = length ts"
    and o1: "\<forall>i < length ts1. i \<noteq> w \<longrightarrow> \<not> is_worker (ts1 ! i)"
    and w1: "ts1 ! w = Worker pc1"
    and i1: "worker_inv (g_plugin_context st1) pc1 (events_of w (tr0 @ e1))"
    and f1: "effects_inv p st1 pc1 (events_of w (tr0 @ e1))"
    by blast
  have w': "w < length ts1" using l1 Cons.prems(1) by simp
  from Cons.IH[OF w' w1 o1 i1 f1 r] show ?case unfolding tr by simp
qed

lemma only_worker:
  assumes "list_all (\<lambda>t. \<not> is_worker t) (take w ts @ drop (Suc w) ts)"
  shows "\<forall>i < length ts. i \<noteq> w \<longrightarrow> \<not> is_worker (ts ! i)"
proof (intro allI impI)
  fix i assume i: "i < length ts" "i \<noteq> w"
  have "ts ! i \<in> set (take w ts) \<or> ts ! i \<in> set (drop (Suc w) ts)"
  proof (cases "i < w")
    case True
    then have "ts ! i = take w ts ! i" "i < length (take w ts)" using i by simp_all
    then show ?thesis by (metis nth_mem)
  next
    case False
    then have "Suc w \<le> i" using i by simp
    then have "ts ! i = drop (Suc w) ts ! (i - Suc w)" "i - Suc w < length (drop (Suc w) ts)"
      using i by simp_all
    then have "ts ! i \<in> set (drop (Suc w) ts)" by (metis nth_mem)
    then show ?thesis by simp
  qed
  with assms show "\<not> is_worker (ts ! i)" by (auto simp: list_all_iff)
qed

lemma disposal_wired:
  assumes "disposal True a h"
  shows "h = [Forward_End None] \<or> (\<exists>e. h = [Forward_End (Some e), Log_Error e, Free a])"
proof (cases h)
  case Nil
  with assms show ?thesis by simp
next
  case (Cons x xs)
  show ?thesis
  proof (cases x)
    case (Forward_End r)
    show ?thesis
    proof (cases r)
      case None
      with assms Cons Forward_End show ?thesis by (cases xs) simp_all
    next
      case (Some e)
      show ?thesis
      proof (cases xs)
        case Nil
        with assms Cons Forward_End Some show ?thesis by simp
      next
        case (Cons y ys)
        note xs = Cons
        show ?thesis
        proof (cases ys)
          case Nil
          with assms \<open>h = x # xs\<close> Forward_End Some xs show ?thesis by (cases y) simp_all
        next
          case (Cons z zs)
          with assms \<open>h = x # xs\<close> Forward_End Some xs show ?thesis
            by (cases y; cases z; cases zs) simp_all
        qed
      qed
    qed
  qed (use assms Cons in simp_all)
qed

lemma sentinel_handled:
  assumes "worker_inv (g_plugin_context st) pc ev" "effects_inv p st pc ev"
    and "Got a END_SENTINEL \<in> set ev"
  shows "sentinel_disposed (wired (g_plugin_context st) \<noteq> None) a (heap st)
           (snd (downstream st))"
    and "finished (g_plugin_context st)"
    and "pc = W_Exit \<and> queue_finished (g_plugin_context st) \<or>
         (\<exists>spc. pc = W_Signal spc \<and> spc \<noteq> SF_Return)"
    and "length (filter is_forward_end ev) = (if wired (g_plugin_context st) = None then 0 else 1)"
proof -
  let ?ctx = "g_plugin_context st"
  note f = worker_inv_facts[OF assms(1)]
  have ne: "filter is_got_end ev \<noteq> []"
    using assms(3) by (force simp: filter_empty_conv)
  then have he: "handled_end ?ctx ev" using f(4) by simp
  from got_end_handling[OF f(3) assms(3)] obtain rest
    where eh: "end_handling ev = Some (a, rest)" by blast
  from end_handling_split[OF eh] obtain pre
    where ev: "ev = pre @ Got a END_SENTINEL # rest" by blast
  have disp: "disposal (wired ?ctx \<noteq> None) a (filter (\<lambda>e. \<not> is_queue_event e) rest)"
    using he eh by (simp add: handled_end_def)
  from assms(2) eh have log: "snd (downstream st) = calls ev"
    and nw: "wired ?ctx = None \<longrightarrow> calls ev = []"
    and nc: "pc \<noteq> W_Crash"
    and fr: "Free a \<in> set rest \<longrightarrow> a \<in> set (freed (heap st))"
    by (simp_all add: effects_inv_def)
  have cr: "calls ev = calls pre @ calls (filter (\<lambda>e. \<not> is_queue_event e) rest)"
    unfolding ev by (simp add: calls_append calls_filter)
  have sub: "set (filter (\<lambda>e. \<not> is_queue_event e) rest) \<subseteq> set rest" by auto
  show "sentinel_disposed (wired ?ctx \<noteq> None) a (heap st) (snd (downstream st))"
  proof (cases "wired ?ctx")
    case None
    with disp have "filter (\<lambda>e. \<not> is_queue_event e) rest = [Free a]" by simp
    then have "Free a \<in> set rest" using sub by auto
    with fr nw None log show ?thesis by (simp add: sentinel_disposed_def)
  next
    case (Some g)
    with disp have d: "disposal True a (filter (\<lambda>e. \<not> is_queue_event e) rest)" by simp
    have "\<exists>r. calls (filter (\<lambda>e. \<not> is_queue_event e) rest) = [(END_SENTINEL, r)] \<and>
              (r = None \<or> Free a \<in> set rest)"
    proof (rule disjE[OF disposal_wired[OF d]])
      assume "filter (\<lambda>e. \<not> is_queue_event e) rest = [Forward_End None]"
      then show ?thesis by simp
    next
      assume "\<exists>e. filter (\<lambda>e. \<not> is_queue_event e) rest =
                  [Forward_End (Some e), Log_Error e, Free a]"
      then obtain e where e: "filter (\<lambda>e. \<not> is_queue_event e) rest =
                  [Forward_End (Some e), Log_Error e, Free a]" by blast
      then have "Free a \<in> set (filter (\<lambda>e. \<not> is_queue_event e) rest)" by simp
      then have "Free a \<in> set rest" using sub by blast
      with e show ?thesis by simp
    qed
    then obtain r where r: "calls (filter (\<lambda>e. \<not> is_queue_event e) rest) = [(END_SENTINEL, r)]"
      and rf: "r = None \<or> Free a \<in> set rest" by blast
    have "snd (downstream st) = calls pre @ [(END_SENTINEL, r)]" using log cr r by simp
    with rf fr Some show ?thesis by (auto simp: sentinel_disposed_def)
  qed
  show "finished ?ctx" using he by (simp add: handled_end_def)
  show "length (filter is_forward_end ev) = (if wired ?ctx = None then 0 else 1)"
    using he by (simp add: handled_end_def)
  have nb: "\<not> before_end ev" using eh by (simp add: before_end_def)
  have "ev \<noteq> []" using assms(3) by auto
  with assms(1) nb nc
  show "pc = W_Exit \<and> queue_finished ?ctx \<or> (\<exists>spc. pc = W_Signal spc \<and> spc \<noteq> SF_Return)"
    by (cases pc) auto
qed

lemma worker_step_sentinel:
  assumes "deref (heap st) a = Some END_SENTINEL"
    and "worker_step (recording call) st (W_Item a) = Some (st2, pc2, ev)"
  shows "pc2 = W_Signal SF_Start \<and>
         g_plugin_context st2 = (g_plugin_context st)\<lparr>finished := True\<rparr> \<and>
         (case wired (g_plugin_context st) of
            None \<Rightarrow> heap st2 = free a (heap st) \<and> downstream st2 = downstream st
          | Some f \<Rightarrow>
              (case call f END_SENTINEL (heap st) (fst (downstream st)) of
                 None \<Rightarrow> False
               | Some (err, h, d) \<Rightarrow>
                   downstream st2 = (d, snd (downstream st) @ [(END_SENTINEL, err)]) \<and>
                   heap st2 = (if err = None then h else free a h)))"
  using assms
  by (auto simp: is_end_def handle_end_def recording_def set_finished_def do_free_def Let_def
           split: option.splits prod.splits)

text \<open>
  \<open>plugin_place_work\<close> running alone does not return exactly when its \<open>put\<close>
  goes to sleep: the stage is initialised, its queue is initialised, not finished and
  full, and the monitor \<open>not_full\<close> can be waited on.
\<close>

lemma place_work_call_waits:
  "place_work_call f s h d = None \<longleftrightarrow>
     plugin_initialized d \<and>
     (case queue d of
        None \<Rightarrow> False
      | Some q \<Rightarrow>
          initialized q \<and> \<not> finished_flag q \<and> queue_is_full q \<and>
          m_initialized (not_full_monitor q))"
proof -
  have five: "(5::nat) = Suc (Suc (Suc (Suc (Suc 0))))" by simp
  show ?thesis
    unfolding place_work_call_def five
    by (cases "queue d")
       (auto simp: Let_def alloc_def set_queue_def put_loop_def monitor_wait_def
          monitor_reset_def do_free_def
          split: prod.splits option.splits if_splits pw_pc.splits)
qed

lemma race_init: "consumer_producer_init zeroed_queue 1 = (None, race_queue)"
  by code_simp

lemma fifo_init: "consumer_producer_init zeroed_queue 2 = (None, fifo_queue)"
  by code_simp

lemma run_collapse:
  "run sched s = ((fst (fst (run sched s)), snd (fst (run sched s))), snd (run sched s))"
  by simp

lemma stage_run_collapse:
  "stage_run call sched s =
     ((fst (fst (stage_run call sched s)), snd (fst (stage_run call sched s))),
      snd (stage_run call sched s))"
  by simp

lemma race_threads_starting: "list_all starting race_threads"
  by code_simp

lemma stage_after_init_ok: "initialized_stage stage_after_init"
  by code_simp

lemma common_plugin_init_transform:
  assumes "common_plugin_init pf nm n mem ctx = (None, ctx')"
  shows "process_function ctx' = pf"
  using assms
  by (auto simp: common_plugin_init_def Let_def split: if_splits prod.splits)

lemma pipeline_transform:
  "process_function (g_plugin_context recorded_stage) = Some same_pointer"
proof -
  have "fst (common_plugin_init (Some same_pointer) (Some ''logger'') 8 zeroed_queue
             (zeroed_context :: nat plugin_context)) = None"
    by code_simp
  then have i: "common_plugin_init (Some same_pointer) (Some ''logger'') 8 zeroed_queue
             (zeroed_context :: nat plugin_context) = (None, stage_after_init)"
    by (simp add: stage_after_init_def prod_eq_iff)
  have l: "list_all initialized_stage [stage_after_init, stage_after_init]"
    using stage_after_init_ok by simp
  have m: "map loaded_handle [0 ..< 2] = [loaded_handle 0, loaded_handle 1]"
    by (simp add: upt_rec)
  have "pipeline_contexts ! 0 = stage_after_init\<lparr>next_place_work := Some 1, attached := True\<rparr>"
    using stage4_loaded[of 2 "[stage_after_init, stage_after_init]", OF _ _ l] m
    by (simp add: pipeline_contexts_def upt_rec)
  then show ?thesis
    using common_plugin_init_transform[OF i] by (simp add: recorded_stage_def)
qed

section \<open>The properties of the queue\<close>

text \<open>
  \<^bold>\<open>C1\<close> (FIFO per queue). Take a queue that \<open>consumer_producer_init\<close> has
  just initialised and any threads, each starting one call of an operation of the
  queue, interleaved in any way. The order of the events \<open>Enq\<close> and \<open>Deq\<close> is the
  order in which the calls held the state mutex. At every moment the items removed so
  far followed by the items still held are the items inserted so far, in order: the
  \<open>i\<close>-th removal takes the item of the \<open>i\<close>-th insertion. The events are those of
  the calls (\<open>call_inv\<close>): a \<open>put\<close> that has returned \<open>NULL\<close> has inserted its
  item, once; a \<open>put\<close> that has returned an error has inserted nothing; a \<open>get\<close>
  that has returned an item has removed that item, once; a \<open>get\<close> that has returned
  \<open>NULL\<close> has removed nothing; the other two operations insert and remove nothing.
\<close>

theorem fifo_per_queue:
  assumes "consumer_producer_init q0 c = (None, q)"
    and "list_all starting ts"
    and "run sched (q, ts) = ((q', ts'), tr)"
  shows "dequeued (events tr) @ contents q' = map Some (enqueued (events tr)) \<and>
         (\<forall>i < length (dequeued (events tr)).
            i < length (enqueued (events tr)) \<and>
            dequeued (events tr) ! i = Some (enqueued (events tr) ! i)) \<and>
         length ts' = length ts \<and>
         (\<forall>j < length ts. call_inv (ts ! j) (ts' ! j) (events_of j tr))"
proof -
  let ?d = "dequeued (events tr)" and ?e = "enqueued (events tr)"
  have "step_ok q q' (events tr)"
    using run_ok[OF init_ok(1)[OF assms(1)] assms(3)] .
  then have eq: "?d @ contents q' = map Some ?e"
    using init_ok(6)[OF assms(1)] by (simp add: step_ok_def)
  have nth: "i < length ?e \<and> ?d ! i = Some (?e ! i)" if "i < length ?d" for i
  proof -
    have len: "length ?d \<le> length ?e"
      using arg_cong[OF eq, of length] by simp
    have "(?d @ contents q') ! i = ?d ! i"
      using that by (simp add: nth_append)
    then show ?thesis using that len eq by simp
  qed
  note si = init_sys_inv[OF assms(1,2)]
  have calls: "length ts' = length ts \<and> call_inv (ts ! j) (ts' ! j) (events_of j tr)"
    if "j < length ts" for j
  proof -
    have "call_inv (ts ! j) (ts ! j) (events_of j [])"
      using assms(2) that by (simp add: list_all_length starting_call)
    from run_call[OF si that this assms(3)] show ?thesis by simp
  qed
  have len: "length ts' = length ts"
    using run_length[OF assms(3)] .
  from eq nth calls len show ?thesis by blast
qed

text \<open>
  The theorem at work: two producers put 7 and 8, two consumers get 7 and 8.
\<close>

theorem fifo_per_queue_witness:
  "consumer_producer_init zeroed_queue 2 = (None, fifo_queue) \<and>
   enqueued (events (snd (run fifo_schedule (fifo_queue, fifo_threads)))) = [7, 8] \<and>
   dequeued (events (snd (run fifo_schedule (fifo_queue, fifo_threads)))) = [Some 7, Some 8] \<and>
   dequeued (events (snd (run fifo_schedule (fifo_queue, fifo_threads)))) @
     contents (fst (fst (run fifo_schedule (fifo_queue, fifo_threads)))) =
   map Some (enqueued (events (snd (run fifo_schedule (fifo_queue, fifo_threads))))) \<and>
   fifo_threads ! 1 = Put (Put_Start (Some 8)) \<and>
   snd (fst (run fifo_schedule (fifo_queue, fifo_threads))) ! 1 = Put (Put_Return None) \<and>
   call_inv (fifo_threads ! 1) (snd (fst (run fifo_schedule (fifo_queue, fifo_threads))) ! 1)
     (events_of 1 (snd (run fifo_schedule (fifo_queue, fifo_threads)))) \<and>
   fifo_threads ! 2 = Get Get_Start \<and>
   snd (fst (run fifo_schedule (fifo_queue, fifo_threads))) ! 2 = Get (Get_Return (Some 7)) \<and>
   call_inv (fifo_threads ! 2) (snd (fst (run fifo_schedule (fifo_queue, fifo_threads))) ! 2)
     (events_of 2 (snd (run fifo_schedule (fifo_queue, fifo_threads))))"
proof -
  have r: "run fifo_schedule (fifo_queue, fifo_threads) =
      ((fst (fst (run fifo_schedule (fifo_queue, fifo_threads))),
        snd (fst (run fifo_schedule (fifo_queue, fifo_threads)))),
       snd (run fifo_schedule (fifo_queue, fifo_threads)))" by simp
  have e: "enqueued (events (snd (run fifo_schedule (fifo_queue, fifo_threads)))) = [7, 8]"
    by code_simp
  have d: "dequeued (events (snd (run fifo_schedule (fifo_queue, fifo_threads)))) =
      [Some 7, Some 8]"
    by code_simp
  have s: "list_all starting fifo_threads" by code_simp
  have l: "(1::nat) < length fifo_threads" "(2::nat) < length fifo_threads" by code_simp+
  have t1: "fifo_threads ! 1 = Put (Put_Start (Some 8))" by code_simp
  have t2: "fifo_threads ! 2 = Get Get_Start" by code_simp
  have u1: "snd (fst (run fifo_schedule (fifo_queue, fifo_threads))) ! 1 = Put (Put_Return None)"
    by code_simp
  have u2: "snd (fst (run fifo_schedule (fifo_queue, fifo_threads))) ! 2 =
      Get (Get_Return (Some 7))"
    by code_simp
  from fifo_per_queue[OF fifo_init s r] e d l t1 t2 u1 u2 fifo_init show ?thesis by blast
qed

text \<open>
  \<^bold>\<open>C3\<close> (a \<open>put\<close> is rejected only at its initial checks). In every state that
  threads starting their calls on a fresh queue can reach, a step of
  \<open>consumer_producer_put\<close> returns the error "Cannot add item after finished signal"
  if and only if the call is at its unlocked entry check or at the re-check under the
  lock and \<open>finished_flag\<close> is set. A call that has passed these checks goes to sleep
  when the queue is full, wakes up when \<open>not_full\<close> is signalled, appends its item as
  soon as it finds room, whether or not \<open>finished_flag\<close> has been set meanwhile, and
  returns \<open>NULL\<close>; no step from the wait on returns an error. In particular, when a
  consumer's \<open>get\<close> runs on the full queue, the blocked \<open>put\<close> that runs next completes
  and its item is at the end of the queue.
\<close>

theorem put_rejected_only_at_initial_checks:
  assumes "consumer_producer_init q0 c = (None, q)"
    and "list_all starting ts"
    and "run sched (q, ts) = ((q1, ts1), evs)"
    and "i < length ts1" and "ts1 ! i = Put pc"
  shows
    "(\<forall>q2 pc' ev. put_step q1 pc = Some (q2, pc', ev) \<longrightarrow>
        (pc' = Put_Return (Some ERR_AFTER_FINISHED) \<longleftrightarrow>
           ((\<exists>x. pc = Put_Start (Some x)) \<or> (\<exists>x. pc = Put_Lock x)) \<and> finished_flag q1) \<and>
        ((\<exists>x. pc = Put_Wait x \<or> pc = Put_Relock x) \<or> pc = Put_Signal \<longrightarrow>
           (\<forall>e. pc' \<noteq> Put_Return (Some e)))) \<and>
     (\<forall>x. pc = Put_Lock x \<and> \<not> finished_flag q1 \<and> queue_is_full q1 \<longrightarrow>
        put_step q1 pc =
          Some (q1\<lparr>not_full_monitor := monitor_reset (not_full_monitor q1)\<rparr>,
                Put_Wait x, [Reset Not_Full])) \<and>
     (\<forall>x. pc = Put_Wait x \<longrightarrow>
        put_step q1 pc =
          (if signaled (not_full_monitor q1) then Some (q1, Put_Relock x, []) else None)) \<and>
     (\<forall>x. pc = Put_Relock x \<and> queue_is_full q1 \<longrightarrow>
        put_step q1 pc =
          Some (q1\<lparr>not_full_monitor := monitor_reset (not_full_monitor q1)\<rparr>,
                Put_Wait x, [Reset Not_Full])) \<and>
     (\<forall>x. pc = Put_Relock x \<and> \<not> queue_is_full q1 \<longrightarrow>
        (\<exists>q2. put_step q1 pc = Some (q2, Put_Signal, [Enq x]) \<and>
              contents q2 = contents q1 @ [Some x])) \<and>
     (pc = Put_Signal \<longrightarrow>
        (\<exists>q2. put_step q1 pc = Some (q2, Put_Return None, [Signal Not_Empty]) \<and>
              contents q2 = contents q1)) \<and>
     (\<forall>x. pc = Put_Wait x \<and> queue_is_full q1 \<longrightarrow>
        (\<exists>y qg gev qp pev.
            exec get_step 4 q1 Get_Start = (qg, Get_Return (Some y), gev) \<and>
            contents q1 = Some y # contents qg \<and>
            exec put_step 3 qg pc = (qp, Put_Return None, pev) \<and>
            contents qp = contents qg @ [Some x]))"
proof -
  note inv = reachable_inv[OF assms(1,2,3)]
  note qi = queue_invD[OF inv(1)]
  note lc = put_loop_cases[OF inv(1)]
  have A: "(pc' = Put_Return (Some ERR_AFTER_FINISHED) \<longleftrightarrow>
           ((\<exists>x. pc = Put_Start (Some x)) \<or> (\<exists>x. pc = Put_Lock x)) \<and> finished_flag q1) \<and>
        ((\<exists>x. pc = Put_Wait x \<or> pc = Put_Relock x) \<or> pc = Put_Signal \<longrightarrow>
           (\<forall>e. pc' \<noteq> Put_Return (Some e)))"
    if st: "put_step q1 pc = Some (q2, pc', ev)" for q2 pc' ev
  proof (cases pc)
    case (Put_Start xo)
    show ?thesis
    proof (cases xo)
      case None
      with st Put_Start show ?thesis by (auto simp: err_strings_distinct[symmetric])
    next
      case (Some x)
      with st Put_Start qi(1) show ?thesis by (auto split: if_splits)
    qed
  next
    case (Put_Lock x)
    with st show ?thesis by (auto split: if_splits dest: put_loop_no_return)
  next
    case (Put_Wait x)
    with st qi(9) show ?thesis
      by (auto simp: monitor_wait_def split: if_splits)
  next
    case (Put_Relock x)
    with st show ?thesis by (auto dest: put_loop_no_return)
  next
    case Put_Signal
    with st show ?thesis by auto
  next
    case (Put_Return r)
    with st show ?thesis by simp
  qed
  have B: "pc = Put_Lock x \<and> \<not> finished_flag q1 \<and> queue_is_full q1 \<longrightarrow>
        put_step q1 pc =
          Some (q1\<lparr>not_full_monitor := monitor_reset (not_full_monitor q1)\<rparr>,
                Put_Wait x, [Reset Not_Full])" for x
    using lc(1) by auto
  have C: "pc = Put_Wait x \<longrightarrow>
        put_step q1 pc =
          (if signaled (not_full_monitor q1) then Some (q1, Put_Relock x, []) else None)" for x
    using qi(9) by (simp add: monitor_wait_def)
  have D: "pc = Put_Relock x \<and> queue_is_full q1 \<longrightarrow>
        put_step q1 pc =
          Some (q1\<lparr>not_full_monitor := monitor_reset (not_full_monitor q1)\<rparr>,
                Put_Wait x, [Reset Not_Full])" for x
    using lc(1) by auto
  have E: "pc = Put_Relock x \<and> \<not> queue_is_full q1 \<longrightarrow>
        (\<exists>q2. put_step q1 pc = Some (q2, Put_Signal, [Enq x]) \<and>
              contents q2 = contents q1 @ [Some x])" for x
    using lc(2) by auto
  have F: "pc = Put_Signal \<longrightarrow>
        (\<exists>q2. put_step q1 pc = Some (q2, Put_Return None, [Signal Not_Empty]) \<and>
              contents q2 = contents q1)"
    by simp
  have G: "\<exists>y qg gev qp pev.
            exec get_step 4 q1 Get_Start = (qg, Get_Return (Some y), gev) \<and>
            contents q1 = Some y # contents qg \<and>
            exec put_step 3 qg pc = (qp, Put_Return None, pev) \<and>
            contents qp = contents qg @ [Some x]"
    if "pc = Put_Wait x \<and> queue_is_full q1" for x
  proof -
    have ne: "\<not> queue_is_empty q1"
      using that qi(2) by (simp add: queue_is_full_def queue_is_empty_def)
    obtain y qg gev where g: "exec get_step 4 q1 Get_Start = (qg, Get_Return (Some y), gev)"
      and c: "contents q1 = Some y # contents qg" and gi: "queue_inv qg"
      and sg: "signaled (not_full_monitor qg)"
      and cap: "capacity qg = capacity q1" and cnt: "count qg = count q1 - 1"
      using get_alone_on_nonempty[OF inv(1,2) ne] by blast
    have nf: "\<not> queue_is_full qg"
      using cap cnt that by (simp add: queue_is_full_def)
    obtain qp pev where "exec put_step 3 qg (Put_Wait x) = (qp, Put_Return None, pev)"
      and "contents qp = contents qg @ [Some x]"
      using put_alone_after_wait[OF gi sg nf, of x] by blast
    with g c that show ?thesis by blast
  qed
  show ?thesis
  proof (intro conjI allI impI)
    fix q2 pc' ev assume "put_step q1 pc = Some (q2, pc', ev)"
    from A[OF this] show "(pc' = Put_Return (Some ERR_AFTER_FINISHED)) =
       (((\<exists>x. pc = Put_Start (Some x)) \<or> (\<exists>x. pc = Put_Lock x)) \<and> finished_flag q1)"
      by blast
  next
    fix q2 pc' ev e
    assume "put_step q1 pc = Some (q2, pc', ev)"
      and "(\<exists>x. pc = Put_Wait x \<or> pc = Put_Relock x) \<or> pc = Put_Signal"
    with A show "pc' \<noteq> Put_Return (Some e)" by blast
  next
    fix x assume "pc = Put_Lock x \<and> \<not> finished_flag q1 \<and> queue_is_full q1"
    with B show "put_step q1 pc =
          Some (q1\<lparr>not_full_monitor := monitor_reset (not_full_monitor q1)\<rparr>,
                Put_Wait x, [Reset Not_Full])" by blast
  next
    fix x assume "pc = Put_Wait x"
    with C show "put_step q1 pc =
          (if signaled (not_full_monitor q1) then Some (q1, Put_Relock x, []) else None)" by blast
  next
    fix x assume "pc = Put_Relock x \<and> queue_is_full q1"
    with D show "put_step q1 pc =
          Some (q1\<lparr>not_full_monitor := monitor_reset (not_full_monitor q1)\<rparr>,
                Put_Wait x, [Reset Not_Full])" by blast
  next
    fix x assume "pc = Put_Relock x \<and> \<not> queue_is_full q1"
    with E show "\<exists>q2. put_step q1 pc = Some (q2, Put_Signal, [Enq x]) \<and>
              contents q2 = contents q1 @ [Some x]" by blast
  next
    assume "pc = Put_Signal"
    with F show "\<exists>q2. put_step q1 pc = Some (q2, Put_Return None, [Signal Not_Empty]) \<and>
              contents q2 = contents q1" by blast
  next
    fix x assume "pc = Put_Wait x \<and> queue_is_full q1"
    from G[OF this] show "\<exists>y qg gev qp pev.
            exec get_step 4 q1 Get_Start = (qg, Get_Return (Some y), gev) \<and>
            contents q1 = Some y # contents qg \<and>
            exec put_step 3 qg pc = (qp, Put_Return None, pev) \<and>
            contents qp = contents qg @ [Some x]" .
  qed
qed

text \<open>
  The theorem at work, in the state where 7 fills the queue, the \<open>put\<close> of 8 sleeps and
  \<open>signal_finished\<close> has run.
\<close>

theorem put_rejected_only_at_initial_checks_witness:
  "consumer_producer_init zeroed_queue 1 = (None, race_queue) \<and>
   list_all starting race_threads \<and>
   snd race_blocked ! 1 = Put (Put_Wait 8) \<and>
   finished_flag (fst race_blocked) \<and> queue_is_full (fst race_blocked) \<and>
   put_step (fst race_blocked) (Put_Wait 8) = None \<and>
   (\<exists>y qg gev qp pev.
      exec get_step 4 (fst race_blocked) Get_Start = (qg, Get_Return (Some y), gev) \<and>
      contents (fst race_blocked) = Some y # contents qg \<and>
      exec put_step 3 qg (Put_Wait 8) = (qp, Put_Return None, pev) \<and>
      contents qp = contents qg @ [Some 8])"
proof -
  have r: "run race_schedule (race_queue, race_threads) =
           ((fst race_blocked, snd race_blocked),
            snd (run race_schedule (race_queue, race_threads)))"
    by (simp add: race_blocked_def)
  have i: "1 < length (snd race_blocked)" by code_simp
  have t: "snd race_blocked ! 1 = Put (Put_Wait 8)" by code_simp
  have f: "finished_flag (fst race_blocked)" "queue_is_full (fst race_blocked)"
    "\<not> signaled (not_full_monitor (fst race_blocked))" by code_simp+
  from put_rejected_only_at_initial_checks[OF race_init race_threads_starting r i t]
    race_init race_threads_starting t f
  show ?thesis by simp
qed

text \<open>
  \<^bold>\<open>C4\<close> (\<open>get\<close> returns no item exactly on an empty, finished queue). In every
  state that threads starting their calls on a fresh queue can reach, a step of
  \<open>consumer_producer_get\<close> returns \<open>NULL\<close> if and only if the call is in its locked
  region and finds the queue empty and finished. On an empty queue that is not
  finished it resets \<open>not_empty\<close> and sleeps until that monitor is signalled, then
  looks again. Otherwise it removes the item at the head, which is not null, and
  returns that item after its signals; a \<open>get\<close> fails in no other way.
\<close>

theorem get_no_item_iff_empty_and_finished:
  assumes "consumer_producer_init q0 c = (None, q)"
    and "list_all starting ts"
    and "run sched (q, ts) = ((q1, ts1), evs)"
    and "i < length ts1" and "ts1 ! i = Get pc"
  shows
    "(\<forall>q2 pc' ev. get_step q1 pc = Some (q2, pc', ev) \<longrightarrow>
        (pc' = Get_Return None \<longleftrightarrow>
           (pc = Get_Lock \<or> pc = Get_Relock) \<and> queue_is_empty q1 \<and> finished_flag q1)) \<and>
     (pc = Get_Start \<longrightarrow> get_step q1 pc = Some (q1, Get_Lock, [])) \<and>
     ((pc = Get_Lock \<or> pc = Get_Relock) \<and> queue_is_empty q1 \<and> \<not> finished_flag q1 \<longrightarrow>
        get_step q1 pc =
          Some (q1\<lparr>not_empty_monitor := monitor_reset (not_empty_monitor q1)\<rparr>,
                Get_Wait, [Reset Not_Empty])) \<and>
     (pc = Get_Wait \<longrightarrow>
        get_step q1 pc =
          (if signaled (not_empty_monitor q1) then Some (q1, Get_Relock, []) else None)) \<and>
     ((pc = Get_Lock \<or> pc = Get_Relock) \<and> \<not> queue_is_empty q1 \<longrightarrow>
        (\<exists>x q2 b. get_step q1 pc = Some (q2, Get_Signal (Some x) b, [Deq (Some x)]) \<and>
                  contents q1 = Some x # contents q2)) \<and>
     (\<forall>x b. pc = Get_Signal x b \<or> pc = Get_Signal_Finished x \<longrightarrow>
        x \<noteq> None \<and>
        (\<exists>q2 ev. exec get_step 2 q1 pc = (q2, Get_Return x, ev) \<and> contents q2 = contents q1))"
proof -
  note inv = reachable_inv[OF assms(1,2,3)]
  note qi = queue_invD[OF inv(1)]
  have ti: "thread_inv q1 (Get pc)"
    using inv(3) assms(4,5) by (metis list_all_length)
  note lc = get_loop_cases[OF inv(1,2)]
  have A: "pc' = Get_Return None \<longleftrightarrow>
           (pc = Get_Lock \<or> pc = Get_Relock) \<and> queue_is_empty q1 \<and> finished_flag q1"
    if "get_step q1 pc = Some (q2, pc', ev)" for q2 pc' ev
  proof (cases pc)
    case Get_Start
    with that qi(1) show ?thesis by auto
  next
    case Get_Lock
    with that get_loop_return_iff[OF inv(1,2), of q2 pc' ev] show ?thesis by simp
  next
    case Get_Wait
    with that qi(10) show ?thesis
      by (auto simp: monitor_wait_def split: if_splits)
  next
    case Get_Relock
    with that get_loop_return_iff[OF inv(1,2), of q2 pc' ev] show ?thesis by simp
  next
    case (Get_Signal x b)
    with that ti show ?thesis by (auto split: if_splits)
  next
    case (Get_Signal_Finished x)
    with that ti show ?thesis by auto
  next
    case (Get_Return r)
    with that show ?thesis by simp
  qed
  have B: "pc = Get_Start \<longrightarrow> get_step q1 pc = Some (q1, Get_Lock, [])"
    using qi(1) by simp
  have C: "(pc = Get_Lock \<or> pc = Get_Relock) \<and> queue_is_empty q1 \<and> \<not> finished_flag q1 \<longrightarrow>
        get_step q1 pc =
          Some (q1\<lparr>not_empty_monitor := monitor_reset (not_empty_monitor q1)\<rparr>,
                Get_Wait, [Reset Not_Empty])"
    using lc(1) by auto
  have D: "pc = Get_Wait \<longrightarrow>
        get_step q1 pc =
          (if signaled (not_empty_monitor q1) then Some (q1, Get_Relock, []) else None)"
    using qi(10) by (simp add: monitor_wait_def)
  have E: "(pc = Get_Lock \<or> pc = Get_Relock) \<and> \<not> queue_is_empty q1 \<longrightarrow>
        (\<exists>x q2 b. get_step q1 pc = Some (q2, Get_Signal (Some x) b, [Deq (Some x)]) \<and>
                  contents q1 = Some x # contents q2)"
    using lc(3) by auto
  have F: "x \<noteq> None \<and>
        (\<exists>q2 ev. exec get_step 2 q1 pc = (q2, Get_Return x, ev) \<and> contents q2 = contents q1)"
    if "pc = Get_Signal x b \<or> pc = Get_Signal_Finished x" for x b
    using that ti by (auto simp: numeral_2_eq_2)
  show ?thesis
  proof (intro conjI)
    show "\<forall>q2 pc' ev. get_step q1 pc = Some (q2, pc', ev) \<longrightarrow>
        (pc' = Get_Return None \<longleftrightarrow>
           (pc = Get_Lock \<or> pc = Get_Relock) \<and> queue_is_empty q1 \<and> finished_flag q1)"
      using A by blast
    show "\<forall>x b. pc = Get_Signal x b \<or> pc = Get_Signal_Finished x \<longrightarrow>
        x \<noteq> None \<and>
        (\<exists>q2 ev. exec get_step 2 q1 pc = (q2, Get_Return x, ev) \<and> contents q2 = contents q1)"
      using F by blast
  qed (fact B C D E)+
qed

text \<open>
  The theorem at work on an empty, finished queue.
\<close>

theorem get_no_item_iff_empty_and_finished_witness:
  "consumer_producer_init zeroed_queue 1 = (None, race_queue) \<and>
   snd finished_empty ! 1 = Get Get_Lock \<and>
   queue_is_empty (fst finished_empty) \<and> finished_flag (fst finished_empty) \<and>
   (\<exists>q2 ev. get_step (fst finished_empty) Get_Lock = Some (q2, Get_Return None, ev))"
proof -
  have s: "list_all starting [Signal_Finished SF_Start, Get Get_Start :: nat thread]"
    by simp
  have r: "run [0, 0, 0, 0, 1] (race_queue, [Signal_Finished SF_Start, Get Get_Start]) =
           ((fst finished_empty, snd finished_empty),
            snd (run [0, 0, 0, 0, 1] (race_queue, [Signal_Finished SF_Start, Get Get_Start])))"
    by (simp add: finished_empty_def)
  have i: "1 < length (snd finished_empty)" by code_simp
  have t: "snd finished_empty ! 1 = Get Get_Lock" by code_simp
  have f: "queue_is_empty (fst finished_empty)" "finished_flag (fst finished_empty)"
    by code_simp+
  obtain q2 pc' ev where g: "get_step (fst finished_empty) Get_Lock = Some (q2, pc', ev)"
    by (cases "get_loop (fst finished_empty)") auto
  from get_no_item_iff_empty_and_finished[OF race_init s r i t] g f
  have "pc' = Get_Return None" by blast
  with g race_init t f show ?thesis by blast
qed

text \<open>
  \<^bold>\<open>C7\<close> (\<open>wait_finished\<close> returns only on a finished, empty queue). In every
  state that threads starting their calls on a fresh queue can reach, a step of
  \<open>consumer_producer_wait_finished\<close> that returns, returns 0 and is taken in a state
  where \<open>finished_flag\<close> is set and \<open>count\<close> is 0. In every other state the call
  resets the finished monitor and sleeps on it: in its first loop as long as
  \<open>finished_flag\<close> is not set, in its second loop as long as \<open>count\<close> is positive.
\<close>

theorem wait_finished_returns_only_when_drained:
  assumes "consumer_producer_init q0 c = (None, q)"
    and "list_all starting ts"
    and "run sched (q, ts) = ((q1, ts1), evs)"
    and "i < length ts1" and "ts1 ! i = Wait_Finished pc"
  shows
    "(\<forall>q2 r ev. wait_finished_step q1 pc = Some (q2, WF_Return r, ev) \<longrightarrow>
        r = 0 \<and> finished_flag q1 \<and> count q1 = 0 \<and> q2 = q1 \<and> ev = []) \<and>
     (pc = WF_Start \<longrightarrow> wait_finished_step q1 pc = Some (q1, WF_Lock, [])) \<and>
     ((pc = WF_Lock \<or> pc = WF_Relock1 \<or> pc = WF_Relock2) \<longrightarrow>
        wait_finished_step q1 pc =
          (if finished_flag q1 \<and> count q1 = 0 then Some (q1, WF_Return 0, [])
           else Some (q1\<lparr>finished_monitor := monitor_reset (finished_monitor q1)\<rparr>,
                      if finished_flag q1 then WF_Wait2 else WF_Wait1,
                      [Reset Finished_Monitor]))) \<and>
     (pc = WF_Wait1 \<longrightarrow>
        wait_finished_step q1 pc =
          (if signaled (finished_monitor q1) then Some (q1, WF_Relock1, []) else None)) \<and>
     (pc = WF_Wait2 \<longrightarrow>
        wait_finished_step q1 pc =
          (if signaled (finished_monitor q1) then Some (q1, WF_Relock2, []) else None))"
proof -
  note inv = reachable_inv[OF assms(1,2,3)]
  note qi = queue_invD[OF inv(1)]
  have ti: "thread_inv q1 (Wait_Finished pc)"
    using inv(3) assms(4,5) by (metis list_all_length)
  have cnt: "count q1 > 0 \<longleftrightarrow> count q1 \<noteq> 0" using qi(6) by linarith
  have p2: "finished_flag q1 \<Longrightarrow> wf_phase2 q1 =
          (if count q1 = 0 then (q1, WF_Return 0, [])
           else (q1\<lparr>finished_monitor := monitor_reset (finished_monitor q1)\<rparr>,
                      WF_Wait2, [Reset Finished_Monitor]))"
    using cnt by (simp add: wf_phase2_def)
  have p1: "wf_phase1 q1 =
          (if finished_flag q1 \<and> count q1 = 0 then (q1, WF_Return 0, [])
           else (q1\<lparr>finished_monitor := monitor_reset (finished_monitor q1)\<rparr>,
                      if finished_flag q1 then WF_Wait2 else WF_Wait1,
                      [Reset Finished_Monitor]))"
    using p2 by (simp add: wf_phase1_def)
  have L: "(pc = WF_Lock \<or> pc = WF_Relock1 \<or> pc = WF_Relock2) \<longrightarrow>
        wait_finished_step q1 pc =
          (if finished_flag q1 \<and> count q1 = 0 then Some (q1, WF_Return 0, [])
           else Some (q1\<lparr>finished_monitor := monitor_reset (finished_monitor q1)\<rparr>,
                      if finished_flag q1 then WF_Wait2 else WF_Wait1,
                      [Reset Finished_Monitor]))"
    using p1 p2 ti by auto
  have S: "pc = WF_Start \<longrightarrow> wait_finished_step q1 pc = Some (q1, WF_Lock, [])"
    using qi(1) by simp
  have W1: "pc = WF_Wait1 \<longrightarrow>
        wait_finished_step q1 pc =
          (if signaled (finished_monitor q1) then Some (q1, WF_Relock1, []) else None)"
    using qi(11) by (simp add: monitor_wait_def)
  have W2: "pc = WF_Wait2 \<longrightarrow>
        wait_finished_step q1 pc =
          (if signaled (finished_monitor q1) then Some (q1, WF_Relock2, []) else None)"
    using qi(11) by (simp add: monitor_wait_def)
  have R: "r = 0 \<and> finished_flag q1 \<and> count q1 = 0 \<and> q2 = q1 \<and> ev = []"
    if st: "wait_finished_step q1 pc = Some (q2, WF_Return r, ev)" for q2 r ev
  proof (cases pc)
    case WF_Start
    with st S show ?thesis by simp
  next
    case WF_Lock
    with st L show ?thesis by (simp split: if_splits)
  next
    case WF_Wait1
    with st W1 show ?thesis by (simp split: if_splits)
  next
    case WF_Relock1
    with st L show ?thesis by (simp split: if_splits)
  next
    case WF_Wait2
    with st W2 show ?thesis by (simp split: if_splits)
  next
    case WF_Relock2
    with st L show ?thesis by (simp split: if_splits)
  next
    case (WF_Return x)
    with st show ?thesis by simp
  qed
  show ?thesis
  proof (intro conjI)
    show "\<forall>q2 r ev. wait_finished_step q1 pc = Some (q2, WF_Return r, ev) \<longrightarrow>
        r = 0 \<and> finished_flag q1 \<and> count q1 = 0 \<and> q2 = q1 \<and> ev = []"
      using R by blast
  qed (fact S L W1 W2)+
qed

text \<open>
  The theorem at work: the queue is finished and holds one item, and the waiter sleeps
  in its second loop.
\<close>

theorem wait_finished_returns_only_when_drained_witness:
  "consumer_producer_init zeroed_queue 1 = (None, race_queue) \<and>
   list_all starting race_threads \<and>
   snd race_resumed ! 4 = Wait_Finished WF_Wait2 \<and>
   finished_flag (fst race_resumed) \<and> count (fst race_resumed) = 1 \<and>
   wait_finished_step (fst race_resumed) WF_Wait2 = None"
proof -
  have r: "run (race_schedule @ race_schedule_more) (race_queue, race_threads) =
           ((fst race_resumed, snd race_resumed),
            snd (run (race_schedule @ race_schedule_more) (race_queue, race_threads)))"
    by (simp add: race_resumed_def)
  have i: "4 < length (snd race_resumed)" by code_simp
  have t: "snd race_resumed ! 4 = Wait_Finished WF_Wait2" by code_simp
  have f: "finished_flag (fst race_resumed)" "count (fst race_resumed) = 1"
    "\<not> signaled (finished_monitor (fst race_resumed))" by code_simp+
  from wait_finished_returns_only_when_drained[OF race_init race_threads_starting r i t]
    race_init race_threads_starting t f
  show ?thesis by simp
qed

text \<open>
  \<^bold>\<open>C8\<close> (\<open>signal_finished\<close> is idempotent). On an initialised queue the first
  call of \<open>consumer_producer_signal_finished\<close> returns with \<open>finished_flag\<close> set and
  with \<open>count\<close>, \<open>head\<close>, \<open>tail\<close> and \<open>items\<close> as they were; a second call returns
  with the whole queue as the first call left it, monitors included, and signals no
  monitor. The same holds for a call on any initialised queue that is already
  finished.
\<close>

theorem signal_finished_idempotent:
  fixes q :: "'a consumer_producer"
  assumes "initialized q"
    and "exec signal_finished_step 4 q SF_Start = (q1, pc1, ev1)"
    and "exec signal_finished_step 4 q1 SF_Start = (q2, pc2, ev2)"
  shows "pc1 = SF_Return \<and> pc2 = SF_Return \<and> finished_flag q1 \<and>
         q2 = q1 \<and> ev2 = [] \<and>
         count q1 = count q \<and> head q1 = head q \<and> tail q1 = tail q \<and> items q1 = items q \<and>
         (\<forall>qf :: 'a consumer_producer. initialized qf \<and> finished_flag qf \<longrightarrow>
            exec signal_finished_step 4 qf SF_Start = (qf, SF_Return, []))"
proof -
  have four: "(4::nat) = Suc (Suc (Suc (Suc 0)))" by simp
  have fin: "exec signal_finished_step 4 qf SF_Start = (qf, SF_Return, [])"
    if "initialized qf" "finished_flag qf" for qf :: "'a consumer_producer"
    unfolding four using that by simp
  have first: "pc1 = SF_Return \<and> finished_flag q1 \<and> initialized q1 \<and>
         count q1 = count q \<and> head q1 = head q \<and> tail q1 = tail q \<and> items q1 = items q"
    using assms(1,2) unfolding four
    by (cases "finished_flag q") auto
  then have "exec signal_finished_step 4 q1 SF_Start = (q1, SF_Return, [])"
    using fin by blast
  with assms(3) first fin show ?thesis by auto
qed

text \<open>
  The theorem at work on a fresh queue of capacity 1.
\<close>

theorem signal_finished_idempotent_witness:
  "initialized race_queue \<and>
   fst (snd (exec signal_finished_step 4 race_queue SF_Start)) = SF_Return \<and>
   finished_flag (fst (exec signal_finished_step 4 race_queue SF_Start)) \<and>
   exec signal_finished_step 4 (fst (exec signal_finished_step 4 race_queue SF_Start)) SF_Start =
     (fst (exec signal_finished_step 4 race_queue SF_Start), SF_Return, [])"
proof -
  let ?r = "exec signal_finished_step 4 race_queue SF_Start"
  let ?r2 = "exec signal_finished_step 4 (fst ?r) SF_Start"
  have i: "initialized race_queue" by code_simp
  have a: "?r = (fst ?r, fst (snd ?r), snd (snd ?r))" by simp
  have b: "?r2 = (fst ?r2, fst (snd ?r2), snd (snd ?r2))" by simp
  from signal_finished_idempotent[OF i a b] i show ?thesis
    by (metis prod.collapse)
qed

text \<open>
  \<^bold>\<open>C9\<close> (\<open>count\<close> stays within the capacity, \<open>finished_flag\<close> stays set). For a
  queue initialised with capacity \<open>c\<close>, \<open>c\<close> is at least 1, and in every state
  reached by any interleaving of calls of \<open>put\<close>, \<open>get\<close>, \<open>signal_finished\<close> and
  \<open>wait_finished\<close>, before and after any step of any of them, \<open>count\<close> is between 0
  and \<open>c\<close> and the capacity is \<open>c\<close>; once \<open>finished_flag\<close> is set, no step of these
  operations clears it.
\<close>

theorem count_bounded_and_finished_monotonic:
  assumes "consumer_producer_init q0 c = (None, q)"
    and "run sched1 (q, ts) = ((q1, ts1), evs1)"
    and "thread_step q1 t = Some (q2, t', ev)"
    and "run sched2 (q2, ts2) = ((q3, ts3), evs3)"
  shows "1 \<le> c \<and>
         capacity q1 = c \<and> 0 \<le> count q1 \<and> count q1 \<le> c \<and>
         capacity q2 = c \<and> 0 \<le> count q2 \<and> count q2 \<le> c \<and>
         (finished_flag q1 \<longrightarrow> finished_flag q2) \<and>
         capacity q3 = c \<and> 0 \<le> count q3 \<and> count q3 \<le> c \<and>
         (finished_flag q2 \<longrightarrow> finished_flag q3)"
proof -
  note i0 = init_ok[OF assms(1)]
  have ok1: "step_ok q q1 (events evs1)" using run_ok[OF i0(1) assms(2)] .
  then have i1: "queue_inv q1" and c1: "capacity q1 = c"
    using i0(2) by (simp_all add: step_ok_def)
  have ok2: "step_ok q1 q2 ev" using thread_step_ok[OF i1 assms(3)] .
  then have i2: "queue_inv q2" and c2: "capacity q2 = c"
    using c1 by (simp_all add: step_ok_def)
  have ok3: "step_ok q2 q3 (events evs3)" using run_ok[OF i2 assms(4)] .
  then have i3: "queue_inv q3" and c3: "capacity q3 = c"
    using c2 by (simp_all add: step_ok_def)
  show ?thesis
    using i0(5) c1 c2 c3 queue_invD(6,7)[OF i1] queue_invD(6,7)[OF i2] queue_invD(6,7)[OF i3]
      ok2 ok3 by (simp add: step_ok_def)
qed

text \<open>
  The theorem at work: a \<open>get\<close> on the full, finished queue of capacity 1.
\<close>

theorem count_bounded_and_finished_monotonic_witness:
  "consumer_producer_init zeroed_queue 1 = (None, race_queue) \<and>
   count (fst race_blocked) = 1 \<and> finished_flag (fst race_blocked) \<and>
   (\<exists>q2 t' ev. thread_step (fst race_blocked) (Get Get_Lock) = Some (q2, t', ev) \<and>
      capacity q2 = 1 \<and> 0 \<le> count q2 \<and> count q2 \<le> 1 \<and> finished_flag q2)"
proof -
  have r: "run race_schedule (race_queue, race_threads) =
           ((fst race_blocked, snd race_blocked),
            snd (run race_schedule (race_queue, race_threads)))"
    by (simp add: race_blocked_def)
  obtain q2 t' ev where s: "thread_step (fst race_blocked) (Get Get_Lock) = Some (q2, t', ev)"
    by (cases "thread_step (fst race_blocked) (Get Get_Lock)") auto
  have r2: "run [] (q2, []) = ((q2, []), [])" by simp
  have f: "count (fst race_blocked) = 1" "finished_flag (fst race_blocked)" by code_simp+
  from count_bounded_and_finished_monotonic[OF race_init r s r2] race_init s f
  show ?thesis by simp
qed

section \<open>The properties of the stage runtime\<close>

text \<open>
  \<^bold>\<open>C2\<close> (single free). Every buffer that the worker handles should be freed
  exactly once. The worker does not do this when it forwards a buffer and
  \<open>next_place_work\<close> succeeds: it then frees neither the buffer it forwarded nor, for
  the sentinel, the sentinel, taking them to be owned downstream, while
  \<open>plugin_place_work\<close> of the next stage duplicates what it is given and frees only
  its own copy. In the pipeline of two stages fed \<open>hello\<close> and the sentinel, both
  workers run until they return and both queues end empty; the second stage has
  freed its two copies (buffers 2 and 3), and the two buffers that the first stage's
  worker removed from its queue (buffers 0 and 1) are still allocated and were never
  freed.
\<close>

theorem forwarded_buffers_are_never_freed:
  "snd (fst first_stage_done) ! 0 = Worker W_Exit \<and>
   snd (fst second_stage_done) ! 0 = Worker W_Exit \<and>
   events_of 0 (snd first_stage_done) =
     [Queue_Event (Deq (Some 0)), Queue_Event (Signal Not_Full),
      Got 0 ''hello'', Transform ''hello'', Forward ''hello'' None,
      Queue_Event (Deq (Some 1)), Queue_Event (Signal Not_Full),
      Got 1 ''<END>'', Forward_End None,
      Queue_Event (Signal Finished_Monitor), Queue_Event (Signal Not_Empty)] \<and>
   heap (fst (fst second_stage_done)) =
     \<lparr>bufs = [(0, ''hello''), (1, ''<END>'')], next_addr = 4, freed = [2, 3]\<rparr> \<and>
   count_list (freed (heap (fst (fst second_stage_done)))) 0 = 0 \<and>
   count_list (freed (heap (fst (fst second_stage_done)))) 1 = 0 \<and>
   map_option contents (queue (g_plugin_context (fst (fst first_stage_done)))) = Some [] \<and>
   map_option contents (queue (g_plugin_context (fst (fst second_stage_done)))) = Some []"
  by code_simp

text \<open>
  \<^bold>\<open>C5\<close> as it is stated: across a chain fed one sentinel, every stage but the last
  forwards exactly one sentinel. This fails for a stage whose transform makes the
  sentinel out of a payload, as the transform of \<open>uppercaser\<close> does out of the line
  \<open><end>\<close>. The worker passes the new buffer on as a payload and later the sentinel
  it reads: fed one sentinel, it calls \<open>plugin_place_work\<close> of the next stage twice
  with the sentinel, and the queue of the next stage holds two buffers with the sentinel.
\<close>

theorem sentinel_passed_on_twice_counterexample:
  "upper_threads =
     [Worker W_Entry, Place_Work (PW_Start (Some ''<end>'')),
      Place_Work (PW_Start (Some ''<END>''))] \<and>
   wired (g_plugin_context upper_stage) = Some 1 \<and>
   snd (fst upper_stage_done) ! 0 = Worker W_Exit \<and>
   length (filter is_got_end (events_of 0 (snd upper_stage_done))) = 1 \<and>
   snd (downstream (fst (fst upper_stage_done))) = [(''<END>'', None), (''<END>'', None)] \<and>
   sentinel_count (snd (downstream (fst (fst upper_stage_done)))) = 2 \<and>
   map_option contents (queue (fst (downstream (fst (fst upper_stage_done))))) =
     Some [Some 3, Some 4] \<and>
   deref (heap (fst (fst upper_stage_done))) 3 = Some END_SENTINEL \<and>
   deref (heap (fst (fst upper_stage_done))) 4 = Some END_SENTINEL"
  by code_simp

text \<open>
  \<^bold>\<open>C5\<close>, amended (the sentinel). Take a worker started at its entry with a
  queue and a transform \<open>p\<close>, the only worker of its stage, next to any other threads
  of the stage and under any schedule, the calls of \<open>next_place_work\<close> that have
  returned being noted. The worker never passes the sentinel to the transform and reads
  the sentinel at most once, and the calls noted are those of its events. When it has
  read the sentinel in buffer \<open>a\<close>: a stage that is not wired has called nothing and
  has freed \<open>a\<close>; the last call of a wired stage is the one that was given the
  sentinel, and \<open>a\<close> has been freed if that call failed; the calls that were given
  the sentinel are this one and one for every payload passed on as the sentinel, none
  of these if \<open>p\<close> makes the sentinel out of no payload; \<open>finished\<close> is set; and
  the worker is inside \<open>consumer_producer_signal_finished\<close> on its own queue, from
  where four steps take it to its return, or it has returned, with the queue finished.
  The step that handles the sentinel, once the call in it returns, leaves the heap as
  the call left it if the call succeeded, with \<open>a\<close> freed otherwise, and changes
  nothing else in the context than \<open>finished\<close>, so the transform has no part in it.
  In a chain of \<open>n\<close> stages wired by \<open>stage4_attach_plugins\<close>, every stage but the
  last is wired to the next one and the last is not wired: so every stage but the last
  whose transform makes the sentinel out of no payload has passed on exactly one sentinel
  when its worker returns, and the last stage has passed on nothing and has freed the
  sentinel it read.
\<close>

theorem sentinel_handled_once:
  fixes st :: "(nat, 'd \<times> (string \<times> string option) list) stage"
  assumes "w < length ts" and "ts ! w = Worker W_Entry"
    and "list_all (\<lambda>t. \<not> is_worker t) (take w ts @ drop (Suc w) ts)"
    and "queue (g_plugin_context st) \<noteq> None"
    and "process_function (g_plugin_context st) = Some p"
    and "snd (downstream st) = []"
    and "stage_run (recording call) sched (st, ts) = ((st', ts'), tr)"
  shows "\<exists>pc. ts' ! w = Worker pc \<and>
      Transform END_SENTINEL \<notin> set (events_of w tr) \<and>
      length (filter is_got_end (events_of w tr)) \<le> 1 \<and>
      snd (downstream st') = calls (events_of w tr) \<and>
      ((\<forall>s. p s \<noteq> New_Buffer END_SENTINEL) \<longrightarrow> sentinel_count (snd (downstream st')) \<le> 1) \<and>
      (\<forall>a. Got a END_SENTINEL \<in> set (events_of w tr) \<longrightarrow>
         sentinel_disposed (wired (g_plugin_context st') \<noteq> None) a (heap st')
           (snd (downstream st')) \<and>
         sentinel_count (snd (downstream st')) =
           (if wired (g_plugin_context st') = None then 0 else 1) +
           count_list (forwards (events_of w tr)) END_SENTINEL \<and>
         ((\<forall>s. p s \<noteq> New_Buffer END_SENTINEL) \<longrightarrow>
            sentinel_count (snd (downstream st')) =
              (if wired (g_plugin_context st') = None then 0 else 1)) \<and>
         finished (g_plugin_context st') \<and>
         (pc = W_Exit \<and> queue_finished (g_plugin_context st') \<or>
          (\<exists>spc. pc = W_Signal spc \<and>
                 fst (snd (exec (worker_step (recording call)) 4 st' pc)) = W_Exit))) \<and>
      (\<forall>a st2 pc2 ev.
         deref (heap st') a = Some END_SENTINEL \<and>
         worker_step (recording call) st' (W_Item a) = Some (st2, pc2, ev) \<longrightarrow>
         pc2 = W_Signal SF_Start \<and>
         g_plugin_context st2 = (g_plugin_context st')\<lparr>finished := True\<rparr> \<and>
         (case wired (g_plugin_context st') of
            None \<Rightarrow> heap st2 = free a (heap st') \<and> downstream st2 = downstream st'
          | Some f \<Rightarrow>
              (case call f END_SENTINEL (heap st') (fst (downstream st')) of
                 None \<Rightarrow> False
               | Some (err, h, d) \<Rightarrow>
                   downstream st2 = (d, snd (downstream st') @ [(END_SENTINEL, err)]) \<and>
                   heap st2 = (if err = None then h else free a h)))) \<and>
      (\<forall>n ctxs ctxs' i.
         0 < n \<and> length ctxs = n \<and> list_all initialized_stage ctxs \<and>
         stage4_attach_plugins (Some (map loaded_handle [0 ..< n])) (int n) ctxs = Inr ctxs' \<and>
         i < n \<and> g_plugin_context st = ctxs' ! i \<and> \<not> list_ex is_attach ts
         \<longrightarrow> wired (g_plugin_context st') = (if Suc i < n then Some (Suc i) else None))"
proof -
  let ?ev = "events_of w tr"
  let ?ctx' = "g_plugin_context st'"
  let ?log = "snd (downstream st')"
  let ?hyp = "\<forall>s. p s \<noteq> New_Buffer END_SENTINEL"
  have wi0: "worker_inv (g_plugin_context st) W_Entry (events_of w [])" by simp
  have ei0: "effects_inv p st W_Entry (events_of w [])"
    using assms(4,5,6) by (simp add: effects_inv_def)
  from stage_run_effects[OF assms(1,2) only_worker[OF assms(3)] wi0 ei0 assms(7)]
  obtain pc where pc: "ts' ! w = Worker pc"
    and inv: "worker_inv ?ctx' pc ?ev" and eff: "effects_inv p st' pc ?ev" by auto
  note f = worker_inv_facts[OF inv]
  from eff have q': "queue ?ctx' \<noteq> None" and log: "?log = calls ?ev"
    and fw: "?hyp \<longrightarrow> END_SENTINEL \<notin> set (forwards ?ev)"
    by (simp_all add: effects_inv_def)
  have cnt: "sentinel_count ?log = length (filter is_forward_end ?ev)" if ?hyp
    using that fw unfolding log sentinel_count_calls by simp
  have c1: "?hyp \<longrightarrow> sentinel_count ?log \<le> 1" using cnt f(2) by simp
  have after: "sentinel_disposed (wired ?ctx' \<noteq> None) a (heap st') ?log \<and>
         sentinel_count ?log =
           (if wired ?ctx' = None then 0 else 1) + count_list (forwards ?ev) END_SENTINEL \<and>
         (?hyp \<longrightarrow> sentinel_count ?log = (if wired ?ctx' = None then 0 else 1)) \<and>
         finished ?ctx' \<and>
         (pc = W_Exit \<and> queue_finished ?ctx' \<or>
          (\<exists>spc. pc = W_Signal spc \<and>
                 fst (snd (exec (worker_step (recording call)) 4 st' pc)) = W_Exit))"
    if g: "Got a END_SENTINEL \<in> set ?ev" for a
  proof -
    note h = sentinel_handled[OF inv eff g]
    obtain qq where qq: "queue ?ctx' = Some qq" using q' by blast
    have ex: "pc = W_Exit \<and> queue_finished ?ctx' \<or>
          (\<exists>spc. pc = W_Signal spc \<and>
                 fst (snd (exec (worker_step (recording call)) 4 st' pc)) = W_Exit)"
      using h(3) worker_signal_exits[OF qq, of _ "recording call"] by auto
    have gen: "sentinel_count ?log =
           (if wired ?ctx' = None then 0 else 1) + count_list (forwards ?ev) END_SENTINEL"
      unfolding log sentinel_count_calls using h(4) by simp
    from h(1,2,4) cnt ex gen show ?thesis by simp
  qed
  have step: "pc2 = W_Signal SF_Start \<and>
         g_plugin_context st2 = ?ctx'\<lparr>finished := True\<rparr> \<and>
         (case wired ?ctx' of
            None \<Rightarrow> heap st2 = free a (heap st') \<and> downstream st2 = downstream st'
          | Some f \<Rightarrow>
              (case call f END_SENTINEL (heap st') (fst (downstream st')) of
                 None \<Rightarrow> False
               | Some (err, h, d) \<Rightarrow>
                   downstream st2 = (d, ?log @ [(END_SENTINEL, err)]) \<and>
                   heap st2 = (if err = None then h else free a h)))"
    if "deref (heap st') a = Some END_SENTINEL \<and>
        worker_step (recording call) st' (W_Item a) = Some (st2, pc2, ev)" for a st2 pc2 ev
    using worker_step_sentinel[of st' a call st2 pc2 ev] that by blast
  have chain: "wired ?ctx' = (if Suc i < n then Some (Suc i) else None)"
    if h: "0 < n \<and> length ctxs = n \<and> list_all initialized_stage ctxs \<and>
      stage4_attach_plugins (Some (map loaded_handle [0 ..< n])) (int n) ctxs = Inr ctxs' \<and>
      i < n \<and> g_plugin_context st = ctxs' ! i \<and> \<not> list_ex is_attach ts"
    for n ctxs ctxs' and i :: nat
  proof -
    from h have h1: "0 < n" and h2: "length ctxs = n" and h3: "list_all initialized_stage ctxs"
      and h4: "stage4_attach_plugins (Some (map loaded_handle [0 ..< n])) (int n) ctxs = Inr ctxs'"
      and h5: "i < n" and h6: "g_plugin_context st = ctxs' ! i"
      and h7: "\<not> list_ex is_attach ts" by simp_all
    have c': "ctxs' ! i = (if Suc i < n
                        then (ctxs ! i)\<lparr>next_place_work := Some (Suc i), attached := True\<rparr>
                        else ctxs ! i)"
      using stage4_loaded[OF h1 h2 h3] h4 h5 by auto
    have "initialized_stage (ctxs ! i)" using h2 h3 h5 by (simp add: list_all_length)
    then have w0: "wired (g_plugin_context st) = (if Suc i < n then Some (Suc i) else None)"
      unfolding h6 c' by (simp add: wired_def initialized_stage_def)
    show ?thesis using stage_run_wired[OF h7 assms(7)] w0 by simp
  qed
  show ?thesis
  proof (intro exI[of _ pc] conjI)
    show "ts' ! w = Worker pc" by (rule pc)
    show "Transform END_SENTINEL \<notin> set ?ev" by (rule f(1))
    show "length (filter is_got_end ?ev) \<le> 1" by (rule f(3))
    show "?log = calls ?ev" by (rule log)
    show "?hyp \<longrightarrow> sentinel_count ?log \<le> 1" by (rule c1)
    show "\<forall>a. Got a END_SENTINEL \<in> set ?ev \<longrightarrow>
         sentinel_disposed (wired ?ctx' \<noteq> None) a (heap st') ?log \<and>
         sentinel_count ?log =
           (if wired ?ctx' = None then 0 else 1) + count_list (forwards ?ev) END_SENTINEL \<and>
         (?hyp \<longrightarrow> sentinel_count ?log = (if wired ?ctx' = None then 0 else 1)) \<and>
         finished ?ctx' \<and>
         (pc = W_Exit \<and> queue_finished ?ctx' \<or>
          (\<exists>spc. pc = W_Signal spc \<and>
                 fst (snd (exec (worker_step (recording call)) 4 st' pc)) = W_Exit))"
      using after by blast
    show "\<forall>a st2 pc2 ev.
         deref (heap st') a = Some END_SENTINEL \<and>
         worker_step (recording call) st' (W_Item a) = Some (st2, pc2, ev) \<longrightarrow>
         pc2 = W_Signal SF_Start \<and>
         g_plugin_context st2 = ?ctx'\<lparr>finished := True\<rparr> \<and>
         (case wired ?ctx' of
            None \<Rightarrow> heap st2 = free a (heap st') \<and> downstream st2 = downstream st'
          | Some f \<Rightarrow>
              (case call f END_SENTINEL (heap st') (fst (downstream st')) of
                 None \<Rightarrow> False
               | Some (err, h, d) \<Rightarrow>
                   downstream st2 = (d, ?log @ [(END_SENTINEL, err)]) \<and>
                   heap st2 = (if err = None then h else free a h)))"
      using step by blast
    show "\<forall>n ctxs ctxs' i.
         0 < n \<and> length ctxs = n \<and> list_all initialized_stage ctxs \<and>
         stage4_attach_plugins (Some (map loaded_handle [0 ..< n])) (int n) ctxs = Inr ctxs' \<and>
         i < n \<and> g_plugin_context st = ctxs' ! i \<and> \<not> list_ex is_attach ts
         \<longrightarrow> wired ?ctx' = (if Suc i < n then Some (Suc i) else None)"
      using chain by blast
  qed
qed

text \<open>
  The theorem at work on the first stage of the pipeline of two stages, whose transform
  returns its argument.
\<close>

theorem sentinel_handled_once_witness:
  "first_stage_threads ! 0 = Worker W_Entry \<and>
   snd (fst recorded_stage_done) ! 0 = Worker W_Exit \<and>
   Got 1 END_SENTINEL \<in> set (events_of 0 (snd recorded_stage_done)) \<and>
   snd (downstream (fst (fst recorded_stage_done))) = [(''hello'', None), (''<END>'', None)] \<and>
   sentinel_count (snd (downstream (fst (fst recorded_stage_done)))) = 1 \<and>
   wired (g_plugin_context (fst (fst recorded_stage_done))) = Some 1 \<and>
   finished (g_plugin_context (fst (fst recorded_stage_done))) \<and>
   freed (heap (fst (fst recorded_stage_done))) = []"
proof -
  have w: "0 < length first_stage_threads" by code_simp
  have t: "first_stage_threads ! 0 = Worker W_Entry" by code_simp
  have o: "list_all (\<lambda>t. \<not> is_worker t)
             (take 0 first_stage_threads @ drop (Suc 0) first_stage_threads)" by code_simp
  have q: "queue (g_plugin_context recorded_stage) \<noteq> None" by code_simp
  have l0: "snd (downstream recorded_stage) = []" by (simp add: recorded_stage_def)
  have r: "stage_run (recording place_work_call) first_stage_schedule
             (recorded_stage, first_stage_threads) =
           ((fst (fst recorded_stage_done), snd (fst recorded_stage_done)),
            snd recorded_stage_done)"
    by (simp add: recorded_stage_done_def)
  have x: "snd (fst recorded_stage_done) ! 0 = Worker W_Exit" by code_simp
  have g: "Got 1 END_SENTINEL \<in> set (events_of 0 (snd recorded_stage_done))" by code_simp
  have lg: "snd (downstream (fst (fst recorded_stage_done))) =
              [(''hello'', None), (''<END>'', None)]" by code_simp
  have fr: "freed (heap (fst (fst recorded_stage_done))) = []" by code_simp
  have ws: "wired (g_plugin_context (fst (fst recorded_stage_done))) = Some 1" by code_simp
  have hyp: "\<forall>s. same_pointer s \<noteq> New_Buffer END_SENTINEL" by (simp add: same_pointer_def)
  from sentinel_handled_once[OF w t o q pipeline_transform l0 r]
  have "\<forall>a. Got a END_SENTINEL \<in> set (events_of 0 (snd recorded_stage_done)) \<longrightarrow>
         ((\<forall>s. same_pointer s \<noteq> New_Buffer END_SENTINEL) \<longrightarrow>
            sentinel_count (snd (downstream (fst (fst recorded_stage_done)))) =
              (if wired (g_plugin_context (fst (fst recorded_stage_done))) = None then 0 else 1)) \<and>
         finished (g_plugin_context (fst (fst recorded_stage_done)))"
    by blast
  with g hyp ws have "sentinel_count (snd (downstream (fst (fst recorded_stage_done)))) = 1"
    and "finished (g_plugin_context (fst (fst recorded_stage_done)))" by auto
  with t x g lg fr ws show ?thesis by simp
qed

text \<open>
  \<^bold>\<open>C6\<close> as it is stated: after the attach step every stage, the last one included,
  has \<open>attached\<close> set. In a pipeline of two stages this fails: \<open>stage4_attach_plugins\<close>
  calls \<open>attach\<close> for the first stage only, and the last stage keeps \<open>attached\<close> unset.
\<close>

theorem terminal_stage_attached_counterexample:
  "fst (common_plugin_init (Some same_pointer) (Some ''logger'') 8 zeroed_queue
          (zeroed_context :: nat plugin_context)) = None \<and>
   (case stage4_attach_plugins (Some [loaded_handle 0, loaded_handle 1]) 2
           [stage_after_init, stage_after_init] of
      Inl code \<Rightarrow> False
    | Inr ctxs \<Rightarrow>
        map attached ctxs = [True, False] \<and> map next_place_work ctxs = [Some 1, None])"
  by code_simp

text \<open>
  \<^bold>\<open>C6\<close>, amended. For \<open>n\<close> loaded and initialised stages the attach step
  succeeds; it attaches stage \<open>i\<close> to the \<open>place_work\<close> of stage \<open>i + 1\<close> for every \<open>i\<close>
  up to \<open>n - 2\<close>, setting \<open>attached\<close> there, and it does not call \<open>attach\<close> on the last
  stage, which stays as initialisation left it: \<open>attached\<close> unset and
  \<open>next_place_work\<close> null, which is what the worker's test
  \<open>attached && next_place_work\<close> takes for the last stage.
\<close>

theorem attach_wires_all_but_terminal:
  assumes "0 < n" and "length ctxs = n" and "list_all initialized_stage ctxs"
  shows "\<exists>ctxs'. stage4_attach_plugins (Some (map loaded_handle [0 ..< n])) (int n) ctxs
                   = Inr ctxs' \<and>
           length ctxs' = n \<and>
           (\<forall>i. Suc i < n \<longrightarrow>
              ctxs' ! i = (ctxs ! i)\<lparr>next_place_work := Some (Suc i), attached := True\<rparr>) \<and>
           ctxs' ! (n - 1) = ctxs ! (n - 1) \<and>
           \<not> attached (ctxs' ! (n - 1)) \<and> next_place_work (ctxs' ! (n - 1)) = None \<and>
           wired (ctxs' ! (n - 1)) = None"
proof -
  let ?r = "map (\<lambda>j. if Suc j < n
                        then (ctxs ! j)\<lparr>next_place_work := Some (Suc j), attached := True\<rparr>
                        else ctxs ! j) [0 ..< n]"
  have last: "initialized_stage (ctxs ! (n - 1))"
    using assms by (simp add: list_all_length)
  have "?r ! (n - 1) = ctxs ! (n - 1)" using assms(1) by simp
  moreover have "\<forall>i. Suc i < n \<longrightarrow>
              ?r ! i = (ctxs ! i)\<lparr>next_place_work := Some (Suc i), attached := True\<rparr>"
    by simp
  moreover have "length ?r = n" by simp
  ultimately show ?thesis
    using stage4_loaded[OF assms] last
    by (intro exI[of _ ?r]) (simp add: initialized_stage_def wired_def)
qed

text \<open>
  The theorem at work on two stages.
\<close>

theorem attach_wires_all_but_terminal_witness:
  "list_all initialized_stage [stage_after_init, stage_after_init] \<and>
   (\<exists>ctxs'. stage4_attach_plugins (Some [loaded_handle 0, loaded_handle 1]) 2
              [stage_after_init, stage_after_init] = Inr ctxs' \<and>
      attached (ctxs' ! 0) \<and> next_place_work (ctxs' ! 0) = Some 1 \<and>
      \<not> attached (ctxs' ! 1) \<and> next_place_work (ctxs' ! 1) = None)"
proof -
  have l: "list_all initialized_stage [stage_after_init, stage_after_init]"
    using stage_after_init_ok by simp
  have m: "map loaded_handle [0 ..< 2] = [loaded_handle 0, loaded_handle 1]"
    by (simp add: upt_rec)
  from attach_wires_all_but_terminal[of 2 "[stage_after_init, stage_after_init]", OF _ _ l]
  obtain ctxs' where
    "stage4_attach_plugins (Some (map loaded_handle [0 ..< 2])) (int 2)
       [stage_after_init, stage_after_init] = Inr ctxs'"
    "\<forall>i. Suc i < 2 \<longrightarrow>
       ctxs' ! i = ([stage_after_init, stage_after_init] ! i)
                     \<lparr>next_place_work := Some (Suc i), attached := True\<rparr>"
    "\<not> attached (ctxs' ! (2 - 1))" "next_place_work (ctxs' ! (2 - 1)) = None"
    by auto
  then show ?thesis using l m by (intro conjI exI[of _ ctxs']) simp_all
qed

text \<open>
  \<^bold>\<open>C10\<close> (the worker returns only on the sentinel). A worker that was started
  with a queue and a transform returns only after it has read the sentinel. Whenever
  \<open>consumer_producer_get\<close> returns \<open>NULL\<close>, the worker calls it again. So once the
  stage is drained (the queue finished and empty, no \<open>put\<close> left that has passed its
  checks, the worker inside \<open>get\<close>), it stays drained under every schedule: the
  worker stays inside \<open>get\<close>, never returns, and does nothing else, in particular it
  frees nothing.
\<close>

theorem worker_exits_only_on_sentinel:
  assumes "w < length ts" and "ts ! w = Worker W_Entry"
    and "queue (g_plugin_context st) \<noteq> None"
    and "process_function (g_plugin_context st) \<noteq> None"
    and "stage_run call sched1 (st, ts) = ((st1, ts1), tr1)"
    and "stage_run call sched2 (st1, ts1) = ((st2, ts2), tr2)"
  shows "(ts1 ! w = Worker W_Exit \<longrightarrow> length (filter is_got_end (events_of w tr1)) = 1) \<and>
         (\<forall>q gpc q' e.
            queue (g_plugin_context st1) = Some q \<and>
            get_step q gpc = Some (q', Get_Return None, e) \<longrightarrow>
            worker_step call st1 (W_Get gpc) =
              Some (set_queue q' st1, W_Get Get_Start, map Queue_Event e)) \<and>
         (drained (st1, ts1) \<longrightarrow>
            drained (st2, ts2) \<and> events_of w tr2 = [] \<and>
            (\<exists>gpc. ts2 ! w = Worker (W_Get gpc) \<and> get_waiting gpc))"
proof -
  have "worker_inv (g_plugin_context st) W_Entry (events_of w [])" by simp
  from stage_run_worker_inv[OF assms(1,2) this assms(5)]
  obtain pc1 where l1: "length ts1 = length ts"
    and ok: "ctx_step_ok (g_plugin_context st) (g_plugin_context st1)"
    and pc1: "ts1 ! w = Worker pc1"
    and inv: "worker_inv (g_plugin_context st1) pc1 (events_of w tr1)" by auto
  have ent: "\<not> (queue (g_plugin_context st1) = None \<or> process_function (g_plugin_context st1) = None)"
    using ctx_step_ok_entry[OF ok] assms(3,4) by simp
  have A: "ts1 ! w = Worker W_Exit \<longrightarrow> length (filter is_got_end (events_of w tr1)) = 1"
    using pc1 inv ent handled_end_facts(3)[of "g_plugin_context st1" "events_of w tr1"]
    by auto
  have B: "worker_step call st1 (W_Get gpc) =
              Some (set_queue q' st1, W_Get Get_Start, map Queue_Event e)"
    if "queue (g_plugin_context st1) = Some q \<and> get_step q gpc = Some (q', Get_Return None, e)"
    for q gpc q' e
    using that by simp
  have C: "drained (st2, ts2) \<and> events_of w tr2 = [] \<and>
            (\<exists>gpc. ts2 ! w = Worker (W_Get gpc) \<and> get_waiting gpc)"
    if d: "drained (st1, ts1)"
  proof -
    have w1: "w < length ts1" using l1 assms(1) by simp
    from stage_run_drained[OF d assms(6) w1 pc1]
    obtain pc2 where d2: "drained (st2, ts2)" and e2: "events_of w tr2 = []"
      and pc2: "ts2 ! w = Worker pc2" by blast
    have "length ts2 = length ts1"
      using stage_run_worker_inv[OF w1 pc1 _ assms(6), of "[]"] inv
        stage_run_worker_inv[OF w1 pc1 inv assms(6)] by blast
    then have "quiet_thread (ts2 ! w)"
      using d2 w1 by (simp add: drained_def list_all_length)
    then obtain gpc where "pc2 = W_Get gpc" "get_waiting gpc"
      using pc2 by (cases pc2) auto
    with d2 e2 pc2 show ?thesis by blast
  qed
  from A B C show ?thesis by blast
qed

text \<open>
  The theorem at work: \<open>signal_finished\<close> on the empty queue of a stage that was never
  fed; however long the worker runs, it is still inside \<open>get\<close>.
\<close>

theorem worker_exits_only_on_sentinel_witness:
  "idle_threads ! 0 = Worker W_Entry \<and>
   drained idle_reached \<and>
   snd idle_reached ! 0 = Worker (W_Get Get_Lock) \<and>
   (\<forall>n. drained (fst (stage_run no_callee (replicate n 0) idle_reached)) \<and>
        events_of 0 (snd (stage_run no_callee (replicate n 0) idle_reached)) = [] \<and>
        (\<exists>gpc. snd (fst (stage_run no_callee (replicate n 0) idle_reached)) ! 0 =
                 Worker (W_Get gpc) \<and> get_waiting gpc))"
proof -
  have w: "0 < length idle_threads" by code_simp
  have t: "idle_threads ! 0 = Worker W_Entry" by code_simp
  have q: "queue (g_plugin_context idle_stage) \<noteq> None"
    "process_function (g_plugin_context idle_stage) \<noteq> None" by code_simp+
  have r: "stage_run no_callee idle_schedule (idle_stage, idle_threads) =
           ((fst idle_reached, snd idle_reached),
            snd (stage_run no_callee idle_schedule (idle_stage, idle_threads)))"
    by (simp add: idle_reached_def)
  have d: "drained (fst idle_reached, snd idle_reached)" by code_simp
  have g: "snd idle_reached ! 0 = Worker (W_Get Get_Lock)" by code_simp
  have "drained (fst (stage_run no_callee (replicate n 0) idle_reached)) \<and>
        events_of 0 (snd (stage_run no_callee (replicate n 0) idle_reached)) = [] \<and>
        (\<exists>gpc. snd (fst (stage_run no_callee (replicate n 0) idle_reached)) ! 0 =
                 Worker (W_Get gpc) \<and> get_waiting gpc)" for n
  proof -
    let ?R = "stage_run no_callee (replicate n 0) (fst idle_reached, snd idle_reached)"
    have r2: "?R = ((fst (fst ?R), snd (fst ?R)), snd ?R)" by simp
    from worker_exits_only_on_sentinel[OF w t q r r2] d
    show ?thesis by simp
  qed
  with t d g show ?thesis by simp
qed

end
